theory Spec2Isabelle
  imports Complex_Main "HOL-Library.Word"
begin

section \<open>JavaScript values\<close>

text \<open>
  A JavaScript string is a sequence of UTF-16 code units; \<open>length\<close>, \<open>slice\<close>, \<open>trim\<close>
  and the regular expressions of the source all work on code units.  \<open>js\<close> embeds an ASCII
  literal.
\<close>

type_synonym jschar = "16 word"
type_synonym jsstring = "jschar list"

definition js :: "string \<Rightarrow> jsstring" where
  "js s = map (\<lambda>c. of_nat (of_char c)) s"

text \<open>
  A JavaScript number is a value of IEEE 754 binary64: NaN, an infinity, the negative zero
  (\<open>NZero\<close>) or a finite value, kept as the rational it denotes (\<open>Fin 0\<close> is the positive
  zero).  Every arithmetic operation and every conversion from text computes the exact
  rational result and rounds it with \<open>toDouble\<close>.
\<close>

datatype jsnum = Fin rat | NZero | PInf | NInf | NaN

text \<open>The number of binary digits of a natural number.\<close>

fun bitLength :: "nat \<Rightarrow> nat" where
  "bitLength n = (if n = 0 then 0 else Suc (bitLength (n div 2)))"

declare bitLength.simps [simp del]

text \<open>The exponent \<open>k\<close> of a positive rational \<open>a\<close>: \<open>2 ^ k \<le> a < 2 ^ (k + 1)\<close>.\<close>

definition floorLog2 :: "rat \<Rightarrow> int" where
  "floorLog2 a =
     (if 1 \<le> a then int (bitLength (nat \<lfloor>a\<rfloor>)) - 1
      else - int (bitLength (nat (\<lceil>1 / a\<rceil> - 1))))"

text \<open>Rounding to the nearest integer, a tie to the even one.\<close>

definition roundHalfEven :: "rat \<Rightarrow> int" where
  "roundHalfEven q =
     (let f = \<lfloor>q\<rfloor> in
      if q - of_int f < 1 / 2 then f
      else if 1 / 2 < q - of_int f then f + 1
      else if even f then f else f + 1)"

text \<open>
  Rounding of an exact result to binary64, to nearest and a tie to even: 53 significant
  bits, the last of them of weight \<open>2 ^ e\<close> with \<open>e\<close> at least \<open>- 1074\<close> (below \<open>2 ^ (- 1022)\<close>
  the values are subnormal and a result can round to a zero, which keeps the sign), and an
  infinity when the rounded magnitude reaches \<open>2 ^ 1024\<close>.
\<close>

definition toDouble :: "rat \<Rightarrow> jsnum" where
  "toDouble x =
     (if x = 0 then Fin 0
      else
        let e = max (floorLog2 \<bar>x\<bar> - 52) (- 1074);
            m = roundHalfEven (\<bar>x\<bar> / 2 powi e);
            v = of_int m * 2 powi e
        in if 2 ^ 1024 \<le> v then (if 0 < x then PInf else NInf)
           else if m = 0 then (if 0 < x then Fin 0 else NZero)
           else Fin (if 0 < x then v else - v))"

text \<open>
  A number literal of a document denotes the binary64 value nearest to it; \<open>numberOf\<close> is
  the value a read of the literal gives.
\<close>

fun numberOf :: "jsnum \<Rightarrow> jsnum" where
  "numberOf (Fin r) = toDouble r"
| "numberOf n = n"

text \<open>The rational value of a finite number (0 for the others), to state orderings.\<close>

fun valueOf :: "jsnum \<Rightarrow> rat" where
  "valueOf (Fin a) = a"
| "valueOf _ = 0"

text \<open>
  The finite binary64 values are among the multiples of the least positive one,
  \<open>2 ^ (- 1074)\<close>.
\<close>

definition onGrid :: "rat \<Rightarrow> bool" where
  "onGrid r \<longleftrightarrow> r * 2 ^ 1074 \<in> \<int>"

text \<open>\<open>Number.isFinite\<close> and \<open>Number.isNaN\<close>.\<close>

fun isFinite :: "jsnum \<Rightarrow> bool" where
  "isFinite (Fin _) = True"
| "isFinite NZero = True"
| "isFinite _ = False"

fun isNaN :: "jsnum \<Rightarrow> bool" where
  "isNaN NaN = True"
| "isNaN _ = False"

fun isZero :: "jsnum \<Rightarrow> bool" where
  "isZero (Fin a) = (a = 0)"
| "isZero NZero = True"
| "isZero _ = False"

fun signBit :: "jsnum \<Rightarrow> bool" where
  "signBit (Fin a) = (a < 0)"
| "signBit NZero = True"
| "signBit NInf = True"
| "signBit _ = False"

fun js_neg :: "jsnum \<Rightarrow> jsnum" where
  "js_neg (Fin a) = (if a = 0 then NZero else Fin (- a))"
| "js_neg NZero = Fin 0"
| "js_neg PInf = NInf"
| "js_neg NInf = PInf"
| "js_neg NaN = NaN"

text \<open>
  \<open>x + y\<close>: an exact sum of zero is the positive zero, unless both operands are the negative
  zero.
\<close>

definition js_add :: "jsnum \<Rightarrow> jsnum \<Rightarrow> jsnum" where
  "js_add x y =
     (if isNaN x \<or> isNaN y then NaN
      else if x = PInf then (if y = NInf then NaN else PInf)
      else if x = NInf then (if y = PInf then NaN else NInf)
      else if y = PInf then PInf
      else if y = NInf then NInf
      else if x = NZero \<and> y = NZero then NZero
      else toDouble (valueOf x + valueOf y))"

text \<open>\<open>x - y\<close> is \<open>x + (- y)\<close>.\<close>

definition js_sub :: "jsnum \<Rightarrow> jsnum \<Rightarrow> jsnum" where
  "js_sub a b = js_add a (js_neg b)"

text \<open>
  \<open>x * y\<close>: the sign is the exclusive or of the signs, also of a zero; an infinity times a
  zero is NaN.
\<close>

definition js_mul :: "jsnum \<Rightarrow> jsnum \<Rightarrow> jsnum" where
  "js_mul x y =
     (if isNaN x \<or> isNaN y then NaN
      else if isFinite x \<and> isFinite y then
        (if valueOf x * valueOf y = 0
         then (if signBit x \<noteq> signBit y then NZero else Fin 0)
         else toDouble (valueOf x * valueOf y))
      else if isZero x \<or> isZero y then NaN
      else if signBit x \<noteq> signBit y then NInf
      else PInf)"

text \<open>The comparisons: false on NaN, and the two zeros are equal.\<close>

fun js_lt :: "jsnum \<Rightarrow> jsnum \<Rightarrow> bool" where
  "js_lt NaN _ = False"
| "js_lt _ NaN = False"
| "js_lt NInf NInf = False"
| "js_lt NInf _ = True"
| "js_lt _ NInf = False"
| "js_lt PInf _ = False"
| "js_lt _ PInf = True"
| "js_lt x y = (valueOf x < valueOf y)"

definition js_gt :: "jsnum \<Rightarrow> jsnum \<Rightarrow> bool" where
  "js_gt a b = js_lt b a"

fun js_ge :: "jsnum \<Rightarrow> jsnum \<Rightarrow> bool" where
  "js_ge NaN _ = False"
| "js_ge _ NaN = False"
| "js_ge a b = (\<not> js_lt a b)"

text \<open>
  The values a document of the store can hold.  A \<open>Date\<close> object carries its time value
  (milliseconds since the epoch, \<open>None\<close> for an invalid date).  An object is the list of
  its own properties in enumeration order, the order \<open>Object.values\<close> yields.
\<close>

datatype jsvalue =
    JUndefined
  | JNull
  | JBool bool
  | JNum jsnum
  | JStr jsstring
  | JDate "int option"
  | JArr "jsvalue list"
  | JObj "(jsstring \<times> jsvalue) list"

subsection \<open>White space and \<open>String.prototype.trim\<close>\<close>

text \<open>The WhiteSpace and LineTerminator code points of ECMAScript (also the class \<open>\s\<close>).\<close>

definition isWhiteSpace :: "jschar \<Rightarrow> bool" where
  "isWhiteSpace c \<longleftrightarrow>
     (0x09 \<le> c \<and> c \<le> 0x0D) \<or> c = 0x20 \<or> c = 0xA0 \<or> c = 0x1680 \<or>
     (0x2000 \<le> c \<and> c \<le> 0x200A) \<or> c = 0x2028 \<or> c = 0x2029 \<or> c = 0x202F \<or>
     c = 0x205F \<or> c = 0x3000 \<or> c = 0xFEFF"

definition trim :: "jsstring \<Rightarrow> jsstring" where
  "trim s = rev (dropWhile isWhiteSpace (rev (dropWhile isWhiteSpace s)))"

definition startsWith :: "jsstring \<Rightarrow> jsstring \<Rightarrow> bool" where
  "startsWith s p = (take (length p) s = p)"

text \<open>\<open>String.prototype.split\<close> with a one-character separator.\<close>

fun split :: "jschar \<Rightarrow> jsstring \<Rightarrow> jsstring list" where
  "split sep [] = [[]]"
| "split sep (c # cs) =
     (if c = sep then [] # split sep cs
      else (case split sep cs of [] \<Rightarrow> [[c]] | p # ps \<Rightarrow> (c # p) # ps))"

subsection \<open>\<open>Number(value)\<close>\<close>

text \<open>
  The StringNumericLiteral grammar of ECMAScript: optional white space around nothing
  (the value 0), a signed decimal literal with optional fraction and exponent,
  \<open>Infinity\<close>, or an unsigned binary, octal or hexadecimal integer.  Anything else is NaN.
\<close>

definition isDigit :: "jschar \<Rightarrow> bool" where
  "isDigit c \<longleftrightarrow> 0x30 \<le> c \<and> c \<le> 0x39"

definition digitsValue :: "jsstring \<Rightarrow> nat" where
  "digitsValue ds = foldl (\<lambda>acc c. acc * 10 + (unat c - 48)) 0 ds"

definition pow10 :: "int \<Rightarrow> rat" where
  "pow10 e = (if 0 \<le> e then 10 ^ nat e else 1 / 10 ^ nat (- e))"

definition parseDigits :: "jsstring \<Rightarrow> nat option" where
  "parseDigits s = (if s \<noteq> [] \<and> list_all isDigit s then Some (digitsValue s) else None)"

definition parseSignedInteger :: "jsstring \<Rightarrow> int option" where
  "parseSignedInteger s =
     (case s of
        [] \<Rightarrow> None
      | c # cs \<Rightarrow>
          if c = 0x2B then map_option int (parseDigits cs)
          else if c = 0x2D then map_option (\<lambda>n. - int n) (parseDigits cs)
          else map_option int (parseDigits s))"

definition parseExponentPart :: "jsstring \<Rightarrow> int option" where
  "parseExponentPart s =
     (case s of
        [] \<Rightarrow> Some 0
      | c # cs \<Rightarrow> if c = 0x65 \<or> c = 0x45 then parseSignedInteger cs else None)"

definition parseUnsignedDecimal :: "jsstring \<Rightarrow> jsnum" where
  "parseUnsignedDecimal s =
     (if s = js ''Infinity'' then PInf
      else
        let ip = takeWhile isDigit s; r1 = dropWhile isDigit s in
        if startsWith r1 [0x2E] then
          (let fp = takeWhile isDigit (tl r1); r3 = dropWhile isDigit (tl r1) in
           if ip = [] \<and> fp = [] then NaN
           else (case parseExponentPart r3 of
                   None \<Rightarrow> NaN
                 | Some e \<Rightarrow>
                     toDouble ((of_nat (digitsValue ip)
                                + of_nat (digitsValue fp) / 10 ^ length fp) * pow10 e)))
        else if ip = [] then NaN
        else (case parseExponentPart r1 of
                None \<Rightarrow> NaN
              | Some e \<Rightarrow> toDouble (of_nat (digitsValue ip) * pow10 e)))"

definition parseDecimal :: "jsstring \<Rightarrow> jsnum" where
  "parseDecimal t =
     (case t of
        [] \<Rightarrow> NaN
      | c # cs \<Rightarrow>
          if c = 0x2B then parseUnsignedDecimal cs
          else if c = 0x2D then js_neg (parseUnsignedDecimal cs)
          else parseUnsignedDecimal t)"

definition digitOfBase :: "nat \<Rightarrow> jschar \<Rightarrow> nat option" where
  "digitOfBase b c =
     (let v = (if isDigit c then Some (unat c - 48)
               else if 0x61 \<le> c \<and> c \<le> 0x66 then Some (unat c - 87)
               else if 0x41 \<le> c \<and> c \<le> 0x46 then Some (unat c - 55)
               else None)
      in case v of None \<Rightarrow> None | Some d \<Rightarrow> if d < b then Some d else None)"

definition parseRadix :: "nat \<Rightarrow> jsstring \<Rightarrow> jsnum" where
  "parseRadix b ds =
     (if ds \<noteq> [] \<and> list_all (\<lambda>c. digitOfBase b c \<noteq> None) ds
      then toDouble (of_nat (foldl (\<lambda>acc c. acc * b
                      + (case digitOfBase b c of None \<Rightarrow> 0 | Some d \<Rightarrow> d)) 0 ds))
      else NaN)"

definition StringToNumber :: "jsstring \<Rightarrow> jsnum" where
  "StringToNumber s =
     (let t = trim s in
      if t = [] then Fin 0
      else if startsWith t (js ''0x'') \<or> startsWith t (js ''0X'') then parseRadix 16 (drop 2 t)
      else if startsWith t (js ''0o'') \<or> startsWith t (js ''0O'') then parseRadix 8 (drop 2 t)
      else if startsWith t (js ''0b'') \<or> startsWith t (js ''0B'') then parseRadix 2 (drop 2 t)
      else parseDecimal t)"

text \<open>A throw of the JavaScript runtime.\<close>

datatype js_error = TypeError

text \<open>
  \<open>Number\<close> of an object first converts it to a primitive: \<open>valueOf\<close>, then \<open>toString\<close>, each
  called when it is callable, and a \<open>TypeError\<close> when neither gives a primitive.  No value
  of a document is callable.  So a plain object with an own property \<open>toString\<close> throws
  (\<open>Object.prototype.valueOf\<close> returns the object itself), and every other plain object has
  the string \<open>[object Object]\<close>.  An array is converted through \<open>join\<close>, which converts every
  element that is neither \<open>null\<close> nor \<open>undefined\<close> to a string and so throws when one of
  them does.
\<close>

fun toPrimitiveThrows :: "jsvalue \<Rightarrow> bool" where
  "toPrimitiveThrows (JObj kvs) = (map_of kvs (js ''toString'') \<noteq> None)"
| "toPrimitiveThrows (JArr xs) = (\<exists>x \<in> set xs. toPrimitiveThrows x)"
| "toPrimitiveThrows _ = False"

text \<open>
  The number of a value whose conversion to a primitive returns.  The string of an array
  is its elements joined by commas, \<open>null\<close> and \<open>undefined\<close> as the empty string: the empty
  array gives 0, an array of one element gives what that element's string gives (the
  string of a number reads back as the number, the negative zero as \<open>0\<close>), and a longer
  array has a comma in its string and gives NaN.
\<close>

fun numberValue :: "jsvalue \<Rightarrow> jsnum" where
  "numberValue JUndefined = NaN"
| "numberValue JNull = Fin 0"
| "numberValue (JBool b) = Fin (if b then 1 else 0)"
| "numberValue (JNum n) = numberOf n"
| "numberValue (JStr s) = StringToNumber s"
| "numberValue (JDate t) = (case t of None \<Rightarrow> NaN | Some ms \<Rightarrow> toDouble (of_int ms))"
| "numberValue (JObj _) = NaN"
| "numberValue (JArr []) = Fin 0"
| "numberValue (JArr [JUndefined]) = Fin 0"
| "numberValue (JArr [JNull]) = Fin 0"
| "numberValue (JArr [JNum n]) = (if isZero (numberOf n) then Fin 0 else numberOf n)"
| "numberValue (JArr [JStr s]) = StringToNumber s"
| "numberValue (JArr [JArr ys]) = numberValue (JArr ys)"
| "numberValue (JArr _) = NaN"

text \<open>\<open>Number(value)\<close>\<close>

definition ToNumber :: "jsvalue \<Rightarrow> js_error + jsnum" where
  "ToNumber v = (if toPrimitiveThrows v then Inl TypeError else Inr (numberValue v))"

section \<open>The record normalizer\<close>

subsection \<open>Documents, records and the environment of a call\<close>

text \<open>\<open>RawDoc\<close>; the field \<open>_id\<close> is \<open>doc_id\<close>, and an absent \<open>data\<close> is \<open>JUndefined\<close>.\<close>

record RawDoc =
  doc_id :: jsstring
  doc_name :: "jsstring option"
  doc_data :: jsvalue
  doc_createTime :: "jsstring option"

record VideoRecord =
  key :: jsstring
  title :: jsstring
  uploader :: jsstring
  playCount :: jsnum
  duration :: jsstring
  publishTime :: jsstring
  danmakuCount :: jsnum
  coverUrl :: "jsstring option"
  videoUrl :: "jsstring option"

text \<open>
  What a call can read besides its argument: the wall clock, the offset of local time from
  UTC at an instant (milliseconds), the host's parser of date strings (\<open>new Date(string)\<close>,
  \<open>None\<close> for an invalid date) and the environment variable of the storage domain.
\<close>

record env =
  now :: int
  localTZA :: "int \<Rightarrow> int"
  dateParse :: "jsstring \<Rightarrow> int option"
  NEXT_PUBLIC_CLOUD_STORAGE_DOMAIN :: "jsstring option"

definition CLOUD_STORAGE_DOMAIN :: "env \<Rightarrow> jsstring" where
  "CLOUD_STORAGE_DOMAIN e =
     (case NEXT_PUBLIC_CLOUD_STORAGE_DOMAIN e of
        None \<Rightarrow> js ''https://636c-cloud1-3gy44slx114f4c73-1258339218.tcb.qcloud.la''
      | Some s \<Rightarrow>
          if s = [] then js ''https://636c-cloud1-3gy44slx114f4c73-1258339218.tcb.qcloud.la''
          else s)"

definition COVER_BASE_URL :: "env \<Rightarrow> jsstring" where
  "COVER_BASE_URL e = CLOUD_STORAGE_DOMAIN e @ js ''/covers/''"

subsection \<open>Helpers\<close>

text \<open>\<open>typeof item === "object" && item !== null\<close>\<close>

fun isObject :: "jsvalue \<Rightarrow> bool" where
  "isObject (JObj _) = True"
| "isObject (JArr _) = True"
| "isObject (JDate _) = True"
| "isObject _ = False"

text \<open>A \<open>Date\<close> has no own enumerable property, so \<open>Object.values\<close> of it is empty.\<close>

fun castToRecordArray :: "jsvalue \<Rightarrow> jsvalue list" where
  "castToRecordArray (JArr payload) = filter isObject payload"
| "castToRecordArray (JObj payload) = filter isObject (map snd payload)"
| "castToRecordArray (JDate _) = filter isObject []"
| "castToRecordArray _ = []"

text \<open>
  Reading a property throws on \<open>null\<close> and \<open>undefined\<close> and returns a value on everything
  else.  \<open>getProp\<close> is the value read, for the property names the normalizer uses: none of
  them is inherited from a prototype, and \<open>length\<close> is an own property of arrays and
  strings.
\<close>

definition nullish :: "jsvalue \<Rightarrow> bool" where
  "nullish v \<longleftrightarrow> v = JUndefined \<or> v = JNull"

fun getProp :: "jsvalue \<Rightarrow> jsstring \<Rightarrow> jsvalue" where
  "getProp (JObj kvs) k = (case map_of kvs k of None \<Rightarrow> JUndefined | Some v \<Rightarrow> v)"
| "getProp (JArr xs) k = (if k = js ''length'' then JNum (Fin (of_nat (length xs))) else JUndefined)"
| "getProp (JStr s) k = (if k = js ''length'' then JNum (Fin (of_nat (length s))) else JUndefined)"
| "getProp _ k = JUndefined"

text \<open>\<open>a ?? b\<close>\<close>

definition coalesce :: "jsvalue \<Rightarrow> jsvalue \<Rightarrow> jsvalue" where
  "coalesce a b = (if nullish a then b else a)"

fun pickString :: "jsvalue list \<Rightarrow> jsstring option" where
  "pickString [] = None"
| "pickString (JStr s # values) = (if 0 < length (trim s) then Some s else pickString values)"
| "pickString (_ # values) = pickString values"

definition pickNumber :: "jsvalue \<Rightarrow> jsnum \<Rightarrow> js_error + jsnum" where
  "pickNumber v fallback =
     (case ToNumber v of
        Inl err \<Rightarrow> Inl err
      | Inr parsed \<Rightarrow> Inr (if isFinite parsed then parsed else fallback))"

text \<open>The number a call has returned.\<close>

definition returned :: "js_error + jsnum \<Rightarrow> jsnum" where
  "returned r = (case r of Inl err \<Rightarrow> NaN | Inr n \<Rightarrow> n)"

text \<open>\<open>String(n)\<close> of an integer (plain decimal below \<open>10^21\<close>).\<close>

fun natToString :: "nat \<Rightarrow> jsstring" where
  "natToString n =
     (if n < 10 then [of_nat (48 + n)]
      else natToString (n div 10) @ [of_nat (48 + n mod 10)])"

declare natToString.simps [simp del]

definition intToString :: "int \<Rightarrow> jsstring" where
  "intToString i = (if i < 0 then 0x2D # natToString (nat (- i)) else natToString (nat i))"

definition padStart :: "nat \<Rightarrow> jschar \<Rightarrow> jsstring \<Rightarrow> jsstring" where
  "padStart n c s = replicate (n - length s) c @ s"

definition padTwoDigits :: "int \<Rightarrow> jsstring" where
  "padTwoDigits v = padStart 2 0x30 (intToString v)"

text \<open>The two decimal digits of a number from 0 to 99, to state what the padding gives.\<close>

definition twoDigits :: "int \<Rightarrow> jsstring" where
  "twoDigits v = [of_nat (48 + nat v div 10), of_nat (48 + nat v mod 10)]"

subsection \<open>Dates\<close>

text \<open>
  \<open>new Date(number)\<close>: the time value is clipped (an instant further than \<open>8.64e15\<close> ms
  from the epoch, NaN or an infinity gives an invalid date) and truncated to an integer.
\<close>

fun newDate :: "jsnum \<Rightarrow> int option" where
  "newDate (Fin r) =
     (if 8640000000000000 < \<bar>r\<bar> then None
      else Some (if 0 \<le> r then \<lfloor>r\<rfloor> else \<lceil>r\<rceil>))"
| "newDate NZero = Some 0"
| "newDate _ = None"

definition LocalTime :: "env \<Rightarrow> int \<Rightarrow> int" where
  "LocalTime e t = t + localTZA e t"

text \<open>Year, month (1 to 12) and day of the month of a day number (days since the epoch).\<close>

definition civilFromDays :: "int \<Rightarrow> int \<times> int \<times> int" where
  "civilFromDays days =
     (let z = days + 719468;
          era = z div 146097;
          doe = z mod 146097;
          yoe = (doe - doe div 1460 + doe div 36524 - doe div 146096) div 365;
          doy = doe - (365 * yoe + yoe div 4 - yoe div 100);
          mp = (5 * doy + 2) div 153;
          d = doy - (153 * mp + 2) div 5 + 1;
          m = (if mp < 10 then mp + 3 else mp - 9);
          y = yoe + era * 400
      in (if m \<le> 2 then y + 1 else y, m, d))"

definition getFullYear :: "env \<Rightarrow> int \<Rightarrow> int" where
  "getFullYear e t = fst (civilFromDays (LocalTime e t div 86400000))"

definition getMonth :: "env \<Rightarrow> int \<Rightarrow> int" where
  "getMonth e t = fst (snd (civilFromDays (LocalTime e t div 86400000))) - 1"

definition getDate :: "env \<Rightarrow> int \<Rightarrow> int" where
  "getDate e t = snd (snd (civilFromDays (LocalTime e t div 86400000)))"

definition getHours :: "env \<Rightarrow> int \<Rightarrow> int" where
  "getHours e t = (LocalTime e t mod 86400000) div 3600000"

definition getMinutes :: "env \<Rightarrow> int \<Rightarrow> int" where
  "getMinutes e t = (LocalTime e t mod 3600000) div 60000"

definition getSeconds :: "env \<Rightarrow> int \<Rightarrow> int" where
  "getSeconds e t = (LocalTime e t mod 60000) div 1000"

definition formatDateTime :: "env \<Rightarrow> int \<Rightarrow> jsstring" where
  "formatDateTime e date =
     (let year = getFullYear e date;
          month = padTwoDigits (getMonth e date + 1);
          day = padTwoDigits (getDate e date);
          hours = padTwoDigits (getHours e date);
          minutes = padTwoDigits (getMinutes e date);
          seconds = padTwoDigits (getSeconds e date)
      in intToString year @ js ''-'' @ month @ js ''-'' @ day @ js '' '' @ hours
         @ js '':'' @ minutes @ js '':'' @ seconds)"

text \<open>The result is the time value of a valid date, or \<open>None\<close> for \<open>null\<close>.\<close>

definition coerceToDate :: "env \<Rightarrow> jsvalue \<Rightarrow> int option" where
  "coerceToDate e v =
     (case v of
        JDate t \<Rightarrow> t
      | JNum n \<Rightarrow>
          (let value = numberOf n in
           if isFinite value
           then newDate (if js_gt value (Fin 1000000000000) then value
                         else js_mul value (Fin 1000))
           else None)
      | JStr s \<Rightarrow>
          (let trimmed = trim s in
           if trimmed = [] then None
           else
             (case (if list_all isDigit trimmed
                    then (let numeric = StringToNumber trimmed in
                          if isFinite numeric
                          then newDate (if js_gt numeric (Fin 1000000000000) then numeric
                                        else js_mul numeric (Fin 1000))
                          else None)
                    else None) of
                Some date \<Rightarrow> Some date
              | None \<Rightarrow> dateParse e trimmed))
      | _ \<Rightarrow> None)"

definition timestampSources :: "jsvalue \<Rightarrow> jsvalue list" where
  "timestampSources item =
     [getProp item (js ''publishTime''), getProp item (js ''publishTimestamp''),
      getProp item (js ''publishTimeMs''), getProp item (js ''publish_time''),
      getProp item (js ''pubdate''), getProp item (js ''pub_time''), getProp item (js ''pubDate''),
      getProp item (js ''ctime''), getProp item (js ''createTime''), getProp item (js ''created_at''),
      getProp item (js ''createdAt'')]"

text \<open>The loop over the timestamp sources: the first date formats the result.\<close>

fun firstTimestamp :: "env \<Rightarrow> jsvalue list \<Rightarrow> jsstring option" where
  "firstTimestamp e [] = None"
| "firstTimestamp e (source # sources) =
     (case coerceToDate e source of
        Some date \<Rightarrow> Some (formatDateTime e date)
      | None \<Rightarrow> firstTimestamp e sources)"

definition resolvePublishTime :: "env \<Rightarrow> jsvalue \<Rightarrow> jsstring" where
  "resolvePublishTime e item =
     (case firstTimestamp e (timestampSources item) of
        Some s \<Rightarrow> s
      | None \<Rightarrow>
          (case pickString [getProp item (js ''publishTimeFormatted''),
                            getProp item (js ''publishTimeRaw''), getProp item (js ''pubdateText''),
                            getProp item (js ''pub_time_text''), getProp item (js ''time'')] of
             Some s \<Rightarrow> s
           | None \<Rightarrow> [0x672A, 0x77E5, 0x65F6, 0x95F4]))"

subsection \<open>\<open>Array.prototype.sort\<close>\<close>

text \<open>
  The sort is stable, and an element \<open>x\<close> goes after \<open>y\<close> when the comparator is positive
  on \<open>(x, y)\<close>.  With a consistent comparator these two determine the result; stable
  insertion computes it.
\<close>

fun insertBy :: "('a \<Rightarrow> 'a \<Rightarrow> jsnum) \<Rightarrow> 'a \<Rightarrow> 'a list \<Rightarrow> 'a list" where
  "insertBy cmp x [] = [x]"
| "insertBy cmp x (y # ys) =
     (if js_gt (cmp x y) (Fin 0) then y # insertBy cmp x ys else x # y # ys)"

definition js_sort :: "('a \<Rightarrow> 'a \<Rightarrow> jsnum) \<Rightarrow> 'a list \<Rightarrow> 'a list" where
  "js_sort cmp xs = foldr (insertBy cmp) xs []"

subsection \<open>\<open>normalizeRecords\<close>\<close>

definition coverUrlOf :: "env \<Rightarrow> jsstring option \<Rightarrow> jsstring option" where
  "coverUrlOf e coverValue =
     (case coverValue of
        None \<Rightarrow> None
      | Some c \<Rightarrow>
          if c = [] then None
          else if startsWith c (js ''//'') then Some (js ''https:'' @ c)
          else if startsWith c (js ''http://'') \<or> startsWith c (js ''https://'') then Some c
          else Some (COVER_BASE_URL e @ c))"

text \<open>The operands of the two calls of \<open>pickNumber\<close>.\<close>

definition playCountSource :: "jsvalue \<Rightarrow> jsvalue" where
  "playCountSource item =
     coalesce (coalesce (getProp item (js ''playCount'')) (getProp item (js ''play_count'')))
       (getProp item (js ''view''))"

definition danmakuCountSource :: "jsvalue \<Rightarrow> jsvalue" where
  "danmakuCountSource item =
     coalesce (coalesce (coalesce (getProp item (js ''danmakuCount''))
                                  (getProp item (js ''danmaku_count'')))
                        (getProp item (js ''danmuCount'')))
       (getProp item (js ''reply''))"

text \<open>
  The object literal the callback of \<open>segments.map\<close> returns, once both calls of
  \<open>pickNumber\<close> have returned.
\<close>

definition recordOf :: "env \<Rightarrow> RawDoc \<Rightarrow> jsvalue \<Rightarrow> nat \<Rightarrow> VideoRecord" where
  "recordOf e doc item index =
     (let fallbackKey = doc_id doc @ js ''-'' @ natToString index;
          keyCandidate =
            (case pickString [getProp item (js ''id''), getProp item (js ''bvid''),
                              JStr fallbackKey] of
               Some s \<Rightarrow> s | None \<Rightarrow> fallbackKey);
          coverValue = pickString [getProp item (js ''cover'')]
      in \<lparr>
        key = keyCandidate,
        title =
          (case pickString [getProp item (js ''title''),
                            JStr [0x672A, 0x547D, 0x540D, 0x7A3F, 0x4EF6]] of
             Some s \<Rightarrow> s | None \<Rightarrow> [0x672A, 0x547D, 0x540D, 0x7A3F, 0x4EF6]),
        uploader =
          (case pickString [getProp item (js ''uploader''), getProp item (js ''author''),
                            getProp item (js ''up''),
                            JStr [0x672A, 0x77E5, 0x6295, 0x7A3F, 0x8005]] of
             Some s \<Rightarrow> s | None \<Rightarrow> [0x672A, 0x77E5, 0x6295, 0x7A3F, 0x8005]),
        playCount = returned (pickNumber (playCountSource item) (Fin 0)),
        duration =
          (case pickString [getProp item (js ''duration''), getProp item (js ''length''),
                            JStr (js ''00:00'')] of
             Some s \<Rightarrow> s | None \<Rightarrow> js ''00:00''),
        publishTime = resolvePublishTime e item,
        danmakuCount = returned (pickNumber (danmakuCountSource item) (Fin 0)),
        coverUrl = coverUrlOf e coverValue,
        videoUrl = pickString [getProp item (js ''videourl''), getProp item (js ''videoUrl''),
                               getProp item (js ''url'')]
      \<rparr>)"

text \<open>
  The callback of \<open>segments.map\<close>.  Its first property read throws when the item is
  \<open>null\<close> or \<open>undefined\<close>; on any other item every read returns, and the callback throws
  what a call of \<open>pickNumber\<close> throws.  Nothing catches it.
\<close>

definition normalizeItem :: "env \<Rightarrow> RawDoc \<Rightarrow> jsvalue \<Rightarrow> nat \<Rightarrow> js_error + VideoRecord" where
  "normalizeItem e doc item index =
     (if nullish item then Inl TypeError
      else
        (case pickNumber (playCountSource item) (Fin 0) of
           Inl err \<Rightarrow> Inl err
         | Inr plays \<Rightarrow>
             (case pickNumber (danmakuCountSource item) (Fin 0) of
                Inl err \<Rightarrow> Inl err
              | Inr danmakus \<Rightarrow> Inr (recordOf e doc item index))))"

text \<open>\<open>segments.map(callback)\<close>: the callback gets the item and its index; a throw ends the map.\<close>

fun mapIndexed :: "('a \<Rightarrow> nat \<Rightarrow> js_error + 'b) \<Rightarrow> nat \<Rightarrow> 'a list \<Rightarrow> js_error + 'b list" where
  "mapIndexed f i [] = Inr []"
| "mapIndexed f i (x # xs) =
     (case f x i of
        Inl err \<Rightarrow> Inl err
      | Inr y \<Rightarrow> (case mapIndexed f (Suc i) xs of Inl err \<Rightarrow> Inl err | Inr ys \<Rightarrow> Inr (y # ys)))"

definition byPlayCountDesc :: "VideoRecord \<Rightarrow> VideoRecord \<Rightarrow> jsnum" where
  "byPlayCountDesc a b = js_sub (playCount b) (playCount a)"

definition flattened :: "env \<Rightarrow> RawDoc \<Rightarrow> js_error + VideoRecord list" where
  "flattened e doc = mapIndexed (normalizeItem e doc) 0 (castToRecordArray (doc_data doc))"

definition normalizeRecords :: "env \<Rightarrow> RawDoc \<Rightarrow> js_error + VideoRecord list" where
  "normalizeRecords e doc =
     (case flattened e doc of
        Inl err \<Rightarrow> Inl err
      | Inr records \<Rightarrow> Inr (js_sort byPlayCountDesc records))"

text \<open>
  An environment for examples: local time is UTC, the host's parser accepts no string, the
  variable of the storage domain is not set.  And a document around a \<open>data\<close> payload.
\<close>

definition utcEnv :: env where
  "utcEnv = \<lparr>now = 0, localTZA = (\<lambda>t. 0), dateParse = (\<lambda>s. None),
             NEXT_PUBLIC_CLOUD_STORAGE_DOMAIN = None\<rparr>"

definition docOf :: "jsvalue \<Rightarrow> RawDoc" where
  "docOf payload = \<lparr>doc_id = js ''d'', doc_name = None, doc_data = payload,
                    doc_createTime = None\<rparr>"

section \<open>The dashboard page: durations\<close>

definition parseDurationToSeconds :: "jsstring \<Rightarrow> jsnum" where
  "parseDurationToSeconds dur =
     (let sanitized = trim dur in
      if sanitized = [] then Fin 0
      else
        let parts = map StringToNumber (split 0x3A sanitized) in
        if list_ex isNaN parts then Fin 0
        else (case parts of
                [hours, minutes, seconds] \<Rightarrow>
                  js_add (js_add (js_mul hours (Fin 3600)) (js_mul minutes (Fin 60))) seconds
              | [minutes, seconds] \<Rightarrow> js_add (js_mul minutes (Fin 60)) seconds
              | _ \<Rightarrow> Fin 0))"

section \<open>The dashboard page: play-count histogram\<close>

text \<open>A range of \<open>PLAY_COUNT_RANGES\<close> (fields \<open>label\<close>, \<open>min\<close>, \<open>max\<close>) and, with its count, a bucket.\<close>

record range =
  label :: jsstring
  range_min :: jsnum
  range_max :: jsnum

record bucket = range +
  count :: nat

definition PLAY_COUNT_RANGES :: "range list" where
  "PLAY_COUNT_RANGES =
     [\<lparr>label = js ''0-1K'', range_min = Fin 0, range_max = Fin 1000\<rparr>,
      \<lparr>label = js ''1K-5K'', range_min = Fin 1000, range_max = Fin 5000\<rparr>,
      \<lparr>label = [0x35, 0x4B, 0x2D, 0x31, 0x4E07], range_min = Fin 5000, range_max = Fin 10000\<rparr>,
      \<lparr>label = [0x31, 0x4E07, 0x2D, 0x35, 0x4E07], range_min = Fin 10000,
        range_max = Fin 50000\<rparr>,
      \<lparr>label = [0x35, 0x4E07, 0x2D, 0x31, 0x30, 0x4E07], range_min = Fin 50000,
        range_max = Fin 100000\<rparr>,
      \<lparr>label = [0x31, 0x30, 0x4E07, 0x2D, 0x35, 0x30, 0x4E07], range_min = Fin 100000,
        range_max = Fin 500000\<rparr>,
      \<lparr>label = [0x35, 0x30, 0x4E07, 0x2D, 0x31, 0x30, 0x30, 0x4E07], range_min = Fin 500000,
        range_max = Fin 1000000\<rparr>,
      \<lparr>label = [0x31, 0x30, 0x30, 0x4E07, 0x2B], range_min = Fin 1000000, range_max = PInf\<rparr>]"

definition inRange :: "jsnum \<Rightarrow> 'a range_scheme \<Rightarrow> bool" where
  "inRange n r \<longleftrightarrow> js_ge n (range_min r) \<and> js_lt n (range_max r)"

text \<open>The inner loop: the first bucket whose range holds the number is incremented.\<close>

fun countInto :: "jsnum \<Rightarrow> bucket list \<Rightarrow> bucket list" where
  "countInto n [] = []"
| "countInto n (r # rs) =
     (if inRange n r then r\<lparr>count := count r + 1\<rparr> # rs else r # countInto n rs)"

definition playCountDistribution :: "VideoRecord list \<Rightarrow> bucket list" where
  "playCountDistribution videos =
     foldl (\<lambda>distribution video. countInto (playCount video) distribution)
       (map (\<lambda>r. range.extend r (bucket.fields 0)) PLAY_COUNT_RANGES) videos"

section \<open>The dashboard page: title keywords\<close>

definition STOP_WORDS :: "jsstring list" where
  "STOP_WORDS =
    [
     [0x7684], [0x4E86], [0x662F], [0x5728], [0x6211], [0x6709], [0x548C], [0x5C31], [0x4E0D],
     [0x4EBA], [0x90FD], [0x4E00], [0x4E00, 0x4E2A], [0x4E0A], [0x4E5F], [0x5F88], [0x5230],
     [0x8BF4], [0x8981], [0x53BB], [0x4F60], [0x4F1A], [0x7740], [0x6CA1, 0x6709], [0x770B],
     [0x597D], [0x81EA, 0x5DF1], [0x8FD9], [0x90A3], [0x4EC0, 0x4E48], [0x4ED6], [0x5979],
     [0x5B83], [0x4EEC], [0x8FD9, 0x4E2A], [0x90A3, 0x4E2A], [0x4E3A], [0x4E0E], [0x53CA],
     [0x7B49], [0x6216], [0x4ECE], [0x88AB], [0x628A], [0x5BF9], [0x8BA9], [0x7ED9], [0x4F46],
     [0x800C], [0x5982], [0x5982, 0x679C], [0x53EF, 0x4EE5], [0x53EF, 0x80FD], [0x5E94, 0x8BE5],
     [0x5DF2, 0x7ECF], [0x8FD8, 0x662F], [0x8FD8, 0x6709], [0x53EA, 0x662F], [0x5C31, 0x662F],
     [0x56E0, 0x4E3A], [0x6240, 0x4EE5], [0x7136, 0x540E], [0x4F46, 0x662F], [0x800C, 0x4E14],
     [0x6216, 0x8005], [0x867D, 0x7136], [0x4E0D, 0x8FC7], [0x4E4B, 0x540E], [0x4EE5, 0x540E],
     [0x4E4B, 0x524D], [0x4EE5, 0x524D], js ''the'', js ''a'', js ''an'', js ''is'', js ''are'',
     js ''was'', js ''were'', js ''be'', js ''been'', js ''being'', js ''have'', js ''has'',
     js ''had'', js ''do'', js ''does'', js ''did'', js ''will'', js ''would'', js ''could'',
     js ''should'', js ''may'', js ''might'', js ''must'', js ''shall'', js ''can'', js ''need'',
     js ''dare'', js ''ought'', js ''used'', js ''to'', js ''of'', js ''in'', js ''for'',
     js ''on'', js ''with'', js ''at'', js ''by'', js ''from'', js ''as'', js ''into'',
     js ''through'', js ''during'', js ''before'', js ''after'', js ''above'', js ''below'',
     js ''between'', js ''under'', js ''again'', js ''further'', js ''then'', js ''once'',
     js ''here'', js ''there'', js ''when'', js ''where'', js ''why'', js ''how'', js ''all'',
     js ''each'', js ''few'', js ''more'', js ''most'', js ''other'', js ''some'', js ''such'',
     js ''no'', js ''nor'', js ''not'', js ''only'', js ''own'', js ''same'', js ''so'',
     js ''than'', js ''too'', js ''very'', js ''just'', js ''and'', js ''but'', js ''if'',
     js ''or'', js ''because'', js ''until'', js ''while'', js ''about'', js ''against'',
     js ''what'', js ''which'', js ''who'', js ''this'', js ''that'', js ''these'', js ''those'',
     js ''am'', js ''it'', js ''its'', js ''his'', js ''her'', js ''their'', js ''my'',
     js ''your'', js ''our'', js ''me'', js ''him'', js ''them'', js ''us'', js ''i'',
     js ''you'', js ''he'', js ''she'', js ''we'', js ''they'', js ''ep'', js ''BV'', js ''bv'',
     js ''av'', js ''AV'', js ''P'', js ''p'', js ''part'', js ''Part'', js ''PART''
    ]"

text \<open>The two classes of brackets and punctuation that become a space.\<close>

definition isBracket :: "jschar \<Rightarrow> bool" where
  "isBracket c \<longleftrightarrow>
     c \<in> set [0x3010, 0x3011, 0x5B, 0x5D, 0x300C, 0x300D, 0x300E, 0x300F, 0xFF08, 0xFF09,
               0x28, 0x29, 0x300A, 0x300B, 0x3C, 0x3E, 0x22, 0x27]"

definition isPunctuation :: "jschar \<Rightarrow> bool" where
  "isPunctuation c \<longleftrightarrow>
     c \<in> set [0xFF0C, 0x3002, 0xFF01, 0xFF1F, 0x3001, 0xFF1B, 0xFF1A, 0xB7, 0x2026, 0x2014,
               0x2D, 0x5F, 0x7C, 0x2F, 0x5C, 0x40, 0x23, 0x24, 0x25, 0x5E, 0x26, 0x2A, 0x2B,
               0x3D, 0x7E, 0x60]"

text \<open>\<open>replace(/[class]/g, " ")\<close> and \<open>replace(/class+/g, " ")\<close>\<close>

definition replaceEach :: "(jschar \<Rightarrow> bool) \<Rightarrow> jsstring \<Rightarrow> jsstring" where
  "replaceEach cls s = map (\<lambda>c. if cls c then 0x20 else c) s"

fun replaceRuns :: "(jschar \<Rightarrow> bool) \<Rightarrow> bool \<Rightarrow> jsstring \<Rightarrow> jsstring" where
  "replaceRuns cls inRun [] = []"
| "replaceRuns cls inRun (c # cs) =
     (if cls c then (if inRun then replaceRuns cls True cs else 0x20 # replaceRuns cls True cs)
      else c # replaceRuns cls False cs)"

definition isLatin :: "jschar \<Rightarrow> bool" where
  "isLatin c \<longleftrightarrow> (0x61 \<le> c \<and> c \<le> 0x7A) \<or> (0x41 \<le> c \<and> c \<le> 0x5A)"

definition isIdeograph :: "jschar \<Rightarrow> bool" where
  "isIdeograph c \<longleftrightarrow> 0x4E00 \<le> c \<and> c \<le> 0x9FA5"

text \<open>\<open>toLowerCase\<close>, on the Latin-only segments it is applied to.\<close>

definition toLowerCase :: "jsstring \<Rightarrow> jsstring" where
  "toLowerCase s = map (\<lambda>c. if 0x41 \<le> c \<and> c \<le> 0x5A then c + 0x20 else c) s"

definition sliceStr :: "jsstring \<Rightarrow> nat \<Rightarrow> nat \<Rightarrow> jsstring" where
  "sliceStr s i j = take (j - i) (drop i s)"

text \<open>The windows of one length: \<open>for (let i = 0; i <= segment.length - len; i++)\<close>\<close>

definition windowsOf :: "jsstring \<Rightarrow> nat \<Rightarrow> jsstring list" where
  "windowsOf segment len =
     concat (map (\<lambda>i. let word = sliceStr segment i (i + len) in
                        if word \<notin> set STOP_WORDS \<and> word \<noteq> [] \<and> list_all isIdeograph word
                        then [word] else [])
                 (if len \<le> length segment then [0 ..< length segment - len + 1] else []))"

definition segmentWords :: "jsstring \<Rightarrow> jsstring list" where
  "segmentWords segment =
     (if segment \<noteq> [] \<and> list_all isLatin segment then
        (if 2 \<le> length segment \<and> toLowerCase segment \<notin> set STOP_WORDS
         then [toLowerCase segment] else [])
      else concat (map (windowsOf segment) [4, 3, 2]))"

definition segmentChineseText :: "jsstring \<Rightarrow> jsstring list" where
  "segmentChineseText text =
     (let cleanedText =
            trim (replaceRuns isWhiteSpace False (replaceRuns isDigit False
                   (replaceEach isPunctuation (replaceEach isBracket text))));
          segments = filter (\<lambda>s. s \<noteq> []) (split 0x20 cleanedText)
      in concat (map segmentWords segments))"

text \<open>
  The segments of a title, as the specification has them: the maximal runs of characters
  that are no bracket, punctuation mark, digit or white space, in their order.  The scan
  \<open>runsFrom\<close> carries the run it is in.
\<close>

definition isSeparator :: "jschar \<Rightarrow> bool" where
  "isSeparator c \<longleftrightarrow> isBracket c \<or> isPunctuation c \<or> isDigit c \<or> isWhiteSpace c"

fun runsFrom :: "('a \<Rightarrow> bool) \<Rightarrow> 'a list \<Rightarrow> 'a list \<Rightarrow> 'a list list" where
  "runsFrom sep run [] = (if run = [] then [] else [run])"
| "runsFrom sep run (c # cs) =
     (if sep c then (if run = [] then [] else [run]) @ runsFrom sep [] cs
      else runsFrom sep (run @ [c]) cs)"

definition segmentsOf :: "jsstring \<Rightarrow> jsstring list" where
  "segmentsOf text = runsFrom isSeparator [] text"

text \<open>
  \<open>wordFrequency\<close> is a plain object used as a table: its own properties in insertion
  order.  A word that is not yet an own property reads \<open>undefined\<close>, except the one word
  the tokenizer can produce that \<open>Object.prototype\<close> defines, \<open>constructor\<close>: it reads a
  function, and \<open>function + 1\<close> is a string, which stays a string under \<open>+ 1\<close>.
\<close>

datatype freq = Count jsnum | Text

fun setOwn :: "jsstring \<Rightarrow> freq \<Rightarrow> (jsstring \<times> freq) list \<Rightarrow> (jsstring \<times> freq) list" where
  "setOwn k v [] = [(k, v)]"
| "setOwn k v (p # ps) = (if fst p = k then (k, v) # ps else p # setOwn k v ps)"

definition addWord :: "(jsstring \<times> freq) list \<Rightarrow> jsstring \<Rightarrow> (jsstring \<times> freq) list" where
  "addWord wordFrequency word =
     (case map_of wordFrequency word of
        Some (Count n) \<Rightarrow> setOwn word (Count (js_add n (Fin 1))) wordFrequency
      | Some Text \<Rightarrow> setOwn word Text wordFrequency
      | None \<Rightarrow>
          if word = js ''constructor'' then setOwn word Text wordFrequency
          else setOwn word (Count (js_add (Fin 0) (Fin 1))) wordFrequency)"

record wordItem =
  name :: jsstring
  value' :: jsnum

definition byValueDesc :: "wordItem \<Rightarrow> wordItem \<Rightarrow> jsnum" where
  "byValueDesc a b = js_sub (value' b) (value' a)"

text \<open>\<open>count >= 2\<close> is false on a string that is no number.\<close>

definition wordCloudData :: "VideoRecord list \<Rightarrow> wordItem list" where
  "wordCloudData videos =
     (let wordFrequency =
            foldl (\<lambda>wf video. foldl addWord wf (segmentChineseText (title video))) [] videos
      in take 100 (js_sort byValueDesc
           (map (\<lambda>(k, v). \<lparr>name = k, value' = (case v of Count n \<Rightarrow> n | Text \<Rightarrow> NaN)\<rparr>)
              (filter (\<lambda>(k, v). case v of Count n \<Rightarrow> js_ge n (Fin 2) | Text \<Rightarrow> False)
                 wordFrequency))))"

section \<open>Rounding to binary64\<close>

lemma bitLength_lt: "n < 2 ^ bitLength n"
proof (induction n rule: bitLength.induct)
  case (1 n)
  show ?case
  proof (cases "n = 0")
    case True
    then show ?thesis by (simp add: bitLength.simps)
  next
    case False
    then have "n div 2 < 2 ^ bitLength (n div 2)" using 1 by simp
    then have "n < 2 * 2 ^ bitLength (n div 2)" by linarith
    then show ?thesis using False by (subst bitLength.simps) simp
  qed
qed

lemma bitLength_ge: "0 < n \<Longrightarrow> 2 ^ (bitLength n - 1) \<le> n"
proof (induction n rule: bitLength.induct)
  case (1 n)
  show ?case
  proof (cases "n div 2 = 0")
    case True
    then have "bitLength (n div 2) = 0" by (simp add: bitLength.simps)
    then have "bitLength n = 1" using "1.prems" by (subst bitLength.simps) simp
    then show ?thesis using "1.prems" by simp
  next
    case False
    then have ih: "2 ^ (bitLength (n div 2) - 1) \<le> n div 2" using 1 by simp
    have pos: "0 < bitLength (n div 2)" using False by (subst bitLength.simps) simp
    have "bitLength n = Suc (bitLength (n div 2))"
      using "1.prems" by (subst bitLength.simps) simp
    then have "(2::nat) ^ (bitLength n - 1) = 2 * 2 ^ (bitLength (n div 2) - 1)"
      using pos by (cases "bitLength (n div 2)") simp_all
    then show ?thesis using ih by linarith
  qed
qed

lemma floorLog2_le:
  assumes "0 < a"
  shows "2 powi floorLog2 a \<le> a"
proof (cases "1 \<le> a")
  case True
  define n where "n = nat \<lfloor>a\<rfloor>"
  have n: "0 < n" unfolding n_def using True by simp
  have le: "(2::nat) ^ (bitLength n - 1) \<le> n" by (rule bitLength_ge [OF n])
  have "(2::rat) ^ (bitLength n - 1) = of_nat (2 ^ (bitLength n - 1))" by simp
  also have "\<dots> \<le> of_nat n" using le by (rule iffD2 [OF of_nat_le_iff])
  also have "\<dots> \<le> a" unfolding n_def using True by simp
  finally have "(2::rat) ^ (bitLength n - 1) \<le> a" .
  moreover have "floorLog2 a = int (bitLength n - 1)"
    using True bitLength_lt [of n] n unfolding floorLog2_def n_def
    by (cases "bitLength (nat \<lfloor>a\<rfloor>)") simp_all
  ultimately show ?thesis by simp
next
  case False
  define z where "z = \<lceil>1 / a\<rceil>"
  define c where "c = nat (z - 1)"
  have "1 < 1 / a" using False assms by simp
  then have ce: "2 \<le> z" unfolding z_def by linarith
  have zc: "(of_int z :: rat) = of_nat (c + 1)"
  proof -
    have "z = int (c + 1)" unfolding c_def using ce by simp
    then show ?thesis by (simp only: of_int_of_nat_eq)
  qed
  have "1 / a \<le> of_int z" unfolding z_def by simp
  also have "\<dots> = (of_nat (c + 1) :: rat)" by (rule zc)
  also have "(of_nat (c + 1) :: rat) \<le> of_nat (2 ^ bitLength c)"
  proof (rule iffD2 [OF of_nat_le_iff])
    show "c + 1 \<le> 2 ^ bitLength c" using bitLength_lt [of c] by simp
  qed
  finally have "1 / a \<le> 2 ^ bitLength c" by simp
  then have "1 \<le> 2 ^ bitLength c * a" using assms by (simp add: field_simps)
  then have "1 / 2 ^ bitLength c \<le> a" by (simp add: field_simps)
  moreover have "floorLog2 a = - int (bitLength c)"
    using False unfolding floorLog2_def c_def z_def by simp
  ultimately show ?thesis by (simp add: power_int_minus field_simps)
qed

lemma roundHalfEven_of_int: "roundHalfEven (of_int j) = j"
  by (simp add: roundHalfEven_def)

lemma roundHalfEven_ge: 
  assumes "of_int k \<le> q"
  shows "k \<le> roundHalfEven q"
proof -
  have "k \<le> \<lfloor>q\<rfloor>" using assms by (simp add: le_floor_iff)
  then show ?thesis unfolding roundHalfEven_def Let_def by auto
qed

lemma roundHalfEven_nonneg: "0 \<le> q \<Longrightarrow> 0 \<le> roundHalfEven q"
  using roundHalfEven_ge [of 0 q] by simp

lemma floorLog2_exponent:
  assumes "0 < a" "a < 2 powi n"
  shows "floorLog2 a < n"
proof (rule ccontr)
  assume "\<not> floorLog2 a < n"
  then have "n \<le> floorLog2 a" by simp
  then have "(2::rat) powi n \<le> 2 powi floorLog2 a" by (intro power_int_increasing) simp_all
  also have "\<dots> \<le> a" by (rule floorLog2_le [OF assms(1)])
  finally show False using assms(2) by simp
qed

lemma powi_split:
  assumes "e \<le> k"
  shows "(2::rat) powi k = of_int (2 ^ nat (k - e)) * 2 powi e"
proof -
  have "(2::rat) powi k = 2 powi ((k - e) + e)" by simp
  also have "\<dots> = 2 powi (k - e) * 2 powi e" by (subst power_int_add) simp_all
  also have "(2::rat) powi (k - e) = 2 powi (int (nat (k - e)))" using assms by simp
  also have "\<dots> = 2 ^ nat (k - e)" by (simp only: power_int_of_nat)
  finally show ?thesis by simp
qed

text \<open>A value of at most 53 significant bits, in range, is a binary64 value.\<close>

lemma toDouble_exact:
  assumes m: "m \<noteq> 0" "\<bar>m\<bar> < 2 ^ 53" and k: "- 1074 \<le> k"
    and r: "\<bar>of_int m * 2 powi k\<bar> < (2::rat) ^ 1024"
  shows "toDouble (of_int m * 2 powi k) = Fin (of_int m * 2 powi k)"
proof -
  define x :: rat where "x = of_int m * 2 powi k"
  define e where "e = max (floorLog2 \<bar>x\<bar> - 52) (- 1074)"
  have p2: "(0::rat) < 2 powi j" for j by (simp add: zero_less_power_int)
  have ax: "\<bar>x\<bar> = of_int \<bar>m\<bar> * 2 powi k"
    unfolding x_def using p2 [of k] by (simp add: abs_mult)
  have xpos: "0 < \<bar>x\<bar>" unfolding ax using m(1) p2 [of k] by simp
  have "of_int \<bar>m\<bar> < (2::rat) ^ 53"
  proof -
    have "(of_int \<bar>m\<bar> :: rat) < of_int (2 ^ 53)" using m(2) by (simp only: of_int_less_iff)
    then show ?thesis by simp
  qed
  then have "\<bar>x\<bar> < 2 ^ 53 * 2 powi k" unfolding ax using p2 [of k] by simp
  also have "(2::rat) ^ 53 * 2 powi k = 2 powi (53 + k)"
    by (subst power_int_add) simp_all
  finally have "floorLog2 \<bar>x\<bar> < 53 + k" by (rule floorLog2_exponent [OF xpos])
  then have ek: "e \<le> k" unfolding e_def using k by simp
  define M where "M = \<bar>m\<bar> * 2 ^ nat (k - e)"
  have Mpos: "0 < M" unfolding M_def using m(1) by simp
  have axM: "\<bar>x\<bar> = of_int M * 2 powi e"
    unfolding ax M_def by (subst powi_split [OF ek]) simp
  then have "\<bar>x\<bar> / 2 powi e = of_int M" using p2 [of e] by simp
  then have rd: "roundHalfEven (\<bar>x\<bar> / 2 powi e) = M" by (simp only: roundHalfEven_of_int)
  have lt: "\<not> 2 ^ 1024 \<le> \<bar>x\<bar>" using r unfolding x_def by simp
  have x0: "x \<noteq> 0" using xpos by simp
  have "toDouble x = Fin (if 0 < x then \<bar>x\<bar> else - \<bar>x\<bar>)"
    unfolding toDouble_def Let_def e_def [symmetric] rd axM [symmetric]
    using lt x0 Mpos by simp
  also have "(if 0 < x then \<bar>x\<bar> else - \<bar>x\<bar>) = x" by simp
  finally show ?thesis unfolding x_def .
qed

lemma toDouble_0: "toDouble 0 = Fin 0"
  by (simp add: toDouble_def)

lemma toDouble_int:
  assumes "\<bar>m\<bar> < 9007199254740992"
  shows "toDouble (of_int m) = Fin (of_int m)"
proof (cases "m = 0")
  case True
  then show ?thesis by (simp add: toDouble_0)
next
  case False
  have "(of_int \<bar>m\<bar> :: rat) < of_int 9007199254740992" using assms by (simp only: of_int_less_iff)
  then have "\<bar>of_int m :: rat\<bar> < 2 ^ 1024" by simp
  then show ?thesis using toDouble_exact [of m 0] False assms by simp
qed

lemma toDouble_numeral:
  "(numeral w :: int) < 9007199254740992 \<Longrightarrow> toDouble (numeral w) = Fin (numeral w)"
  using toDouble_int [of "numeral w"] by simp

lemma toDouble_neg_numeral:
  "(numeral w :: int) < 9007199254740992 \<Longrightarrow> toDouble (- numeral w) = Fin (- numeral w)"
  using toDouble_int [of "- numeral w"] by simp

lemma toDouble_1: "toDouble 1 = Fin 1"
  using toDouble_int [of 1] by simp

text \<open>A finite result is a multiple of the smallest subnormal.\<close>

lemma grid_toDouble: "onGrid (valueOf (toDouble x))"
proof -
  define e where "e = max (floorLog2 \<bar>x\<bar> - 52) (- 1074)"
  define m where "m = roundHalfEven (\<bar>x\<bar> / 2 powi e)"
  have e: "- 1074 \<le> e" unfolding e_def by simp
  have "(2::rat) powi (e + 1074) = 2 powi e * 2 powi 1074"
    by (subst power_int_add) simp_all
  then have "of_int m * 2 powi e * (2::rat) ^ 1074 = of_int m * 2 powi (e + 1074)" by simp
  also have "(2::rat) powi (e + 1074) = 2 powi (int (nat (e + 1074)))" using e by simp
  also have "\<dots> = of_int (2 ^ nat (e + 1074))" by (simp only: power_int_of_nat) simp
  finally have "of_int m * 2 powi e * (2::rat) ^ 1074 = of_int (m * 2 ^ nat (e + 1074))" by simp
  then have g: "of_int m * 2 powi e * (2::rat) ^ 1074 \<in> \<int>" by (simp only: Ints_of_int)
  then have g': "- (of_int m * 2 powi e) * (2::rat) ^ 1074 \<in> \<int>"
    using Ints_minus [OF g] by simp
  show ?thesis
    unfolding onGrid_def toDouble_def Let_def e_def [symmetric] m_def [symmetric]
    using g g' by simp
qed

text \<open>The sign of a rounded difference of two binary64 values is the sign of the difference.\<close>

lemma toDouble_positive:
  assumes "0 < x" "onGrid x"
  shows "js_gt (toDouble x) (Fin 0)"
proof -
  define e where "e = max (floorLog2 \<bar>x\<bar> - 52) (- 1074)"
  define m where "m = roundHalfEven (\<bar>x\<bar> / 2 powi e)"
  have p2: "(0::rat) < 2 powi j" for j by (simp add: zero_less_power_int)
  obtain z where z: "x * 2 ^ 1074 = of_int z"
    using assms(2) unfolding onGrid_def by (auto elim: Ints_cases)
  have "0 < x * 2 ^ 1074" using assms(1) by simp
  then have "(0::rat) < of_int z" unfolding z .
  then have "1 \<le> z" by simp
  then have "(1::rat) \<le> of_int z" by simp
  then have lo: "1 \<le> x * 2 ^ 1074" unfolding z .
  have small: "(2::rat) powi (- 1074) \<le> x"
  proof -
    have "(2::rat) powi (- 1074) = 1 / 2 ^ 1074" by (simp add: power_int_minus field_simps)
    also have "\<dots> \<le> x" using lo by (simp add: field_simps)
    finally show ?thesis .
  qed
  have le: "2 powi e \<le> \<bar>x\<bar>"
  proof (cases "floorLog2 \<bar>x\<bar> - 52 \<le> - 1074")
    case True
    then have "e = - 1074" unfolding e_def by simp
    then show ?thesis using small assms(1) by simp
  next
    case False
    then have "e = floorLog2 \<bar>x\<bar> - 52" unfolding e_def by simp
    then have "(2::rat) powi e \<le> 2 powi floorLog2 \<bar>x\<bar>"
      by (intro power_int_increasing) simp_all
    also have "\<dots> \<le> \<bar>x\<bar>" using assms(1) by (intro floorLog2_le) simp
    finally show ?thesis .
  qed
  then have "of_int 1 \<le> \<bar>x\<bar> / 2 powi e" using p2 [of e] by (simp add: field_simps)
  then have m1: "1 \<le> m" unfolding m_def by (rule roundHalfEven_ge)
  then have "(0::rat) < of_int m * 2 powi e" using p2 [of e] by simp
  then show ?thesis
    unfolding toDouble_def Let_def e_def [symmetric] m_def [symmetric] js_gt_def
    using assms(1) m1 by simp
qed

lemma toDouble_not_positive:
  assumes "x \<le> 0"
  shows "\<not> js_gt (toDouble x) (Fin 0)"
proof -
  define e where "e = max (floorLog2 \<bar>x\<bar> - 52) (- 1074)"
  define m where "m = roundHalfEven (\<bar>x\<bar> / 2 powi e)"
  have p2: "(0::rat) < 2 powi j" for j by (simp add: zero_less_power_int)
  have "0 \<le> \<bar>x\<bar> / 2 powi e" using p2 [of e] by simp
  then have "0 \<le> m" unfolding m_def by (rule roundHalfEven_nonneg)
  then have "(0::rat) \<le> of_int m * 2 powi e" using p2 [of e] by simp
  then show ?thesis
    unfolding toDouble_def Let_def e_def [symmetric] m_def [symmetric] js_gt_def
    using assms by simp
qed

lemma js_gt_toDouble_0:
  "onGrid x \<Longrightarrow> js_gt (toDouble x) (Fin 0) \<longleftrightarrow> 0 < x"
  using toDouble_positive [of x] toDouble_not_positive [of x] by (cases "0 < x") simp_all

lemma onGrid_0: "onGrid 0"
  by (simp add: onGrid_def)

lemma onGrid_minus: "onGrid x \<Longrightarrow> onGrid (- x)"
  unfolding onGrid_def using Ints_minus [of "x * 2 ^ 1074"] by simp

lemma onGrid_diff: "onGrid x \<Longrightarrow> onGrid y \<Longrightarrow> onGrid (x - y)"
  unfolding onGrid_def using Ints_diff [of "x * 2 ^ 1074" "y * 2 ^ 1074"]
  by (simp add: algebra_simps)

lemma onGrid_of_int: "onGrid (of_int z)"
  unfolding onGrid_def by (metis Ints_of_int of_int_mult of_int_numeral of_int_power)

section \<open>Evaluation of the runtime model on literals\<close>

lemma bitLength_0: "bitLength 0 = 0"
  by (simp add: bitLength.simps)

lemma bitLength_1: "bitLength (Suc 0) = 1"
  by (simp add: bitLength.simps)

lemma bitLength_numeral: "bitLength (numeral w) = Suc (bitLength (numeral w div 2))"
  by (subst bitLength.simps) simp

lemma floor_rat_numeral: "\<lfloor>numeral a / numeral b :: rat\<rfloor> = numeral a div numeral b"
  using floor_divide_of_int_eq [of "numeral a" "numeral b", where ?'a = rat] by simp

lemmas round_eval = toDouble_def floorLog2_def roundHalfEven_def Let_def bitLength_0 bitLength_1
  bitLength_numeral power_int_minus floor_rat_numeral

lemma toDouble_minus_1: "toDouble (- 1) = Fin (- 1)"
  using toDouble_int [of "- 1"] by simp

lemmas num_eval = StringToNumber_def startsWith_def parseDecimal_def parseUnsignedDecimal_def
  isDigit_def parseExponentPart_def parseSignedInteger_def parseDigits_def toDouble_0 toDouble_1
  toDouble_minus_1 toDouble_numeral toDouble_neg_numeral digitsValue_def pow10_def trim_def isWhiteSpace_def
  js_def js_add_def js_mul_def

text \<open>
  Rounding at work: \<open>2 ^ 53 + 1\<close> is no binary64 value, \<open>1e-400\<close> underflows to zero, and
  \<open>0.1 + 0.2\<close> is \<open>0.30000000000000004\<close>.
\<close>

lemma ceiling_rat_numeral:
  "\<lceil>numeral a / numeral b :: rat\<rceil> = - ((- numeral a) div numeral b)"
  using ceiling_divide_eq_div [of "numeral a" "numeral b", where ?'a = rat] by simp

lemmas text_eval = StringToNumber_def startsWith_def parseDecimal_def parseUnsignedDecimal_def
  isDigit_def parseExponentPart_def parseSignedInteger_def parseDigits_def digitsValue_def
  pow10_def trim_def isWhiteSpace_def js_def

lemma number_above_2_53: "StringToNumber (js ''9007199254740993'') = Fin 9007199254740992"
  by (simp add: num_eval round_eval)

lemma number_underflow: "StringToNumber (js ''1e-400'') = Fin 0"
proof -
  have "StringToNumber (js ''1e-400'') = toDouble (1 / 10 ^ 400)"
    by (simp add: text_eval)
  also have "\<dots> = Fin 0"
    by (simp add: round_eval ceiling_rat_numeral)
  finally show ?thesis .
qed

lemma sum_of_tenths:
  "js_add (StringToNumber (js ''0.1'')) (StringToNumber (js ''0.2''))
     = Fin (1351079888211149 / 4503599627370496)"
proof -
  have a: "StringToNumber (js ''0.1'') = Fin (3602879701896397 / 36028797018963968)"
    by (simp add: text_eval) (simp add: round_eval ceiling_rat_numeral)
  have b: "StringToNumber (js ''0.2'') = Fin (3602879701896397 / 18014398509481984)"
    by (simp add: text_eval) (simp add: round_eval ceiling_rat_numeral)
  show ?thesis unfolding a b by (simp add: js_add_def round_eval ceiling_rat_numeral)
qed

section \<open>Durations\<close>

lemma parseDuration_two:
  assumes "split 0x3A (trim dur) = [a, b]" "\<not> isNaN (StringToNumber a)"
    "\<not> isNaN (StringToNumber b)"
  shows "parseDurationToSeconds dur = js_add (js_mul (StringToNumber a) (Fin 60)) (StringToNumber b)"
proof -
  have "trim dur \<noteq> []" using assms(1) by auto
  then show ?thesis using assms by (simp add: parseDurationToSeconds_def)
qed

lemma parseDuration_one:
  assumes "length (split 0x3A (trim dur)) = 1"
  shows "parseDurationToSeconds dur = Fin 0"
proof -
  obtain p where "split 0x3A (trim dur) = [p]"
    using assms by (cases "split 0x3A (trim dur)") auto
  then show ?thesis by (simp add: parseDurationToSeconds_def Let_def)
qed

lemma parseDuration_many:
  assumes "4 \<le> length (split 0x3A (trim dur))"
  shows "parseDurationToSeconds dur = Fin 0"
proof -
  obtain p q r s rest where "split 0x3A (trim dur) = p # q # r # s # rest"
    using assms by (auto simp: numeral_eq_Suc Suc_le_length_iff)
  then show ?thesis by (simp add: parseDurationToSeconds_def Let_def)
qed

lemma number_4_1: "StringToNumber (js ''4.1'') = Fin (2308094809027379 / 562949953421312)"
proof -
  have "StringToNumber (js ''4.1'') = toDouble (41 / 10)"
    by (simp add: StringToNumber_def startsWith_def parseDecimal_def parseUnsignedDecimal_def
      isDigit_def parseExponentPart_def digitsValue_def pow10_def trim_def isWhiteSpace_def
      js_def)
  also have "\<dots> = Fin (2308094809027379 / 562949953421312)"
    by (simp add: round_eval)
  finally show ?thesis .
qed

lemma times_60: 
  "js_mul (Fin (2308094809027379 / 562949953421312)) (Fin 60)
     = Fin (8655355533852671 / 35184372088832)"
  by (simp add: js_mul_def round_eval)

lemma duration_4_1: "parseDurationToSeconds (js ''4.1:0'') = Fin (8655355533852671 / 35184372088832)"
proof -
  have s: "split 0x3A (trim (js ''4.1:0'')) = [js ''4.1'', js ''0'']"
    by (simp add: trim_def isWhiteSpace_def js_def)
  have z: "StringToNumber (js ''0'') = Fin 0" by (simp add: num_eval)
  have "js_add (Fin (8655355533852671 / 35184372088832)) (Fin 0)
          = toDouble (of_int 8655355533852671 * 2 powi (- 45))"
    by (simp add: js_add_def power_int_minus field_simps)
  also have "\<dots> = Fin (of_int 8655355533852671 * 2 powi (- 45))"
    by (rule toDouble_exact) (simp_all add: power_int_minus)
  finally have a: "js_add (Fin (8655355533852671 / 35184372088832)) (Fin 0)
          = Fin (8655355533852671 / 35184372088832)"
    by (simp add: power_int_minus field_simps)
  show ?thesis
    using parseDuration_two [OF s] by (simp add: number_4_1 z times_60 a)
qed

text \<open>
  C10.  A duration whose trimmed text has exactly two parts between colons, neither of them
  NaN under \<open>Number\<close> (so each a finite number, or an infinity), is minutes times 60 plus
  seconds, in the arithmetic of JavaScript numbers.  The empty part is the number 0, so
  \<open>3:\<close> is 180 seconds; \<open>4.1:0\<close> is the binary64 value next below 246.  A text of one part,
  such as \<open>90\<close>, and a text of four or more parts give 0.
\<close>

theorem parseDurationToSeconds_parts:
  "(split 0x3A (trim dur) = [a, b] \<and> \<not> isNaN (StringToNumber a) \<and> \<not> isNaN (StringToNumber b)
      \<longrightarrow> parseDurationToSeconds dur
            = js_add (js_mul (StringToNumber a) (Fin 60)) (StringToNumber b))
   \<and> StringToNumber [] = Fin 0
   \<and> parseDurationToSeconds (js ''3:'') = Fin 180
   \<and> parseDurationToSeconds (js ''4.1:0'') = Fin (8655355533852671 / 35184372088832)
   \<and> parseDurationToSeconds (js ''90'') = Fin 0
   \<and> (length (split 0x3A (trim dur)) = 1 \<longrightarrow> parseDurationToSeconds dur = Fin 0)
   \<and> (4 \<le> length (split 0x3A (trim dur)) \<longrightarrow> parseDurationToSeconds dur = Fin 0)"
proof -
  have e: "StringToNumber [] = Fin 0" by (simp add: StringToNumber_def trim_def)
  have t: "parseDurationToSeconds (js ''3:'') = Fin 180"
    by (simp add: parseDurationToSeconds_def num_eval)
  have n: "parseDurationToSeconds (js ''90'') = Fin 0"
    by (simp add: parseDurationToSeconds_def num_eval)
  show ?thesis
    using parseDuration_two parseDuration_one parseDuration_many e t n duration_4_1 by blast
qed

theorem parseDurationToSeconds_parts_witness:
  "parseDurationToSeconds (js ''3:45'') = Fin 225
   \<and> parseDurationToSeconds (js ''7'') = Fin 0
   \<and> parseDurationToSeconds (js ''1:2:3:4'') = Fin 0"
proof -
  have s1: "split 0x3A (trim (js ''3:45'')) = [js ''3'', js ''45'']"
    by (simp add: trim_def isWhiteSpace_def js_def)
  have n1: "StringToNumber (js ''3'') = Fin 3" by (simp add: num_eval)
  have n2: "StringToNumber (js ''45'') = Fin 45" by (simp add: num_eval)
  have s2: "length (split 0x3A (trim (js ''7''))) = 1"
    by (simp add: trim_def isWhiteSpace_def js_def)
  have s3: "4 \<le> length (split 0x3A (trim (js ''1:2:3:4'')))"
    by (simp add: trim_def isWhiteSpace_def js_def)
  have a: "js_add (js_mul (Fin 3) (Fin 60)) (Fin 45) = Fin 225"
    by (simp add: num_eval)
  show ?thesis
    using parseDurationToSeconds_parts [of "js ''3:45''" "js ''3''" "js ''45''"]
      parseDurationToSeconds_parts [of "js ''7''"]
      parseDurationToSeconds_parts [of "js ''1:2:3:4''"]
      s1 n1 n2 s2 s3 a
    by simp
qed

section \<open>When the normalizer returns\<close>

lemma natToString_digit: "n < 10 \<Longrightarrow> natToString n = [of_nat (48 + n)]"
  by (subst natToString.simps) simp

lemmas norm_eval = normalizeRecords_def flattened_def normalizeItem_def recordOf_def nullish_def
  coalesce_def pickNumber_def ToNumber_def returned_def playCountSource_def
  danmakuCountSource_def resolvePublishTime_def timestampSources_def coerceToDate_def
  coverUrlOf_def js_sort_def byPlayCountDesc_def js_sub_def js_gt_def docOf_def utcEnv_def
  natToString_digit

lemma castToRecordArray_isObject: "x \<in> set (castToRecordArray v) \<Longrightarrow> isObject x"
  by (cases v) auto

lemma isObject_not_nullish: "isObject x \<Longrightarrow> \<not> nullish x"
  by (cases x) (auto simp: nullish_def)

lemma pickNumber_cases:
  "pickNumber v fallback =
     (if toPrimitiveThrows v then Inl TypeError
      else Inr (if isFinite (numberValue v) then numberValue v else fallback))"
  by (simp add: pickNumber_def ToNumber_def)

lemma normalizeItem_cases:
  "\<not> nullish x \<Longrightarrow>
   normalizeItem e doc x j =
     (if toPrimitiveThrows (playCountSource x) \<or> toPrimitiveThrows (danmakuCountSource x)
      then Inl TypeError else Inr (recordOf e doc x j))"
  by (simp add: normalizeItem_def pickNumber_cases)

lemma mapIndexed_recordOf:
  "\<forall>x \<in> set xs. \<not> nullish x \<Longrightarrow>
   mapIndexed (normalizeItem e doc) i xs =
     (if \<exists>x \<in> set xs. toPrimitiveThrows (playCountSource x)
                        \<or> toPrimitiveThrows (danmakuCountSource x)
      then Inl TypeError
      else Inr (map (\<lambda>(j, x). recordOf e doc x j) (enumerate i xs)))"
  by (induction xs arbitrary: i) (auto simp: normalizeItem_cases)

lemma flattened_eq:
  "flattened e doc =
     (if \<exists>x \<in> set (castToRecordArray (doc_data doc)).
           toPrimitiveThrows (playCountSource x) \<or> toPrimitiveThrows (danmakuCountSource x)
      then Inl TypeError
      else Inr (map (\<lambda>(j, x). recordOf e doc x j)
                  (enumerate 0 (castToRecordArray (doc_data doc)))))"
  unfolding flattened_def
  by (rule mapIndexed_recordOf) (auto dest: castToRecordArray_isObject isObject_not_nullish)

lemma length_insertBy: "length (insertBy cmp x xs) = Suc (length xs)"
  by (induction xs) auto

lemma length_js_sort: "length (js_sort cmp xs) = length xs"
  by (induction xs) (auto simp: js_sort_def length_insertBy)

lemma set_insertBy: "set (insertBy cmp x xs) = insert x (set xs)"
  by (induction xs) auto

lemma set_js_sort: "set (js_sort cmp xs) = set xs"
  by (induction xs) (auto simp: js_sort_def set_insertBy)

text \<open>
  The call returns exactly when no entry has a count whose conversion to a number throws,
  and then with one record for each object-typed entry of \<open>data\<close>, sorted.
\<close>

lemma normalizeRecords_eq:
  "normalizeRecords e doc =
     (if \<exists>x \<in> set (castToRecordArray (doc_data doc)).
           toPrimitiveThrows (playCountSource x) \<or> toPrimitiveThrows (danmakuCountSource x)
      then Inl TypeError
      else Inr (js_sort byPlayCountDesc
         (map (\<lambda>(j, x). recordOf e doc x j) (enumerate 0 (castToRecordArray (doc_data doc))))))"
  by (simp add: normalizeRecords_def flattened_eq)

lemma normalizeRecords_Inr:
  assumes "normalizeRecords e doc = Inr records"
  shows "records = js_sort byPlayCountDesc
           (map (\<lambda>(j, x). recordOf e doc x j) (enumerate 0 (castToRecordArray (doc_data doc))))"
    and "\<forall>x \<in> set (castToRecordArray (doc_data doc)).
           \<not> toPrimitiveThrows (playCountSource x) \<and> \<not> toPrimitiveThrows (danmakuCountSource x)"
  using assms unfolding normalizeRecords_eq by (auto split: if_splits)

lemma records_are_recordOf:
  assumes "normalizeRecords e doc = Inr records" "r \<in> set records"
  shows "\<exists>item \<in> set (castToRecordArray (doc_data doc)). \<exists>i. r = recordOf e doc item i"
proof -
  have "r \<in> set (map (\<lambda>(j, x). recordOf e doc x j)
                    (enumerate 0 (castToRecordArray (doc_data doc))))"
    using assms normalizeRecords_Inr(1) [OF assms(1)] by (simp add: set_js_sort)
  then obtain j x where "(j, x) \<in> set (enumerate 0 (castToRecordArray (doc_data doc)))"
    "r = recordOf e doc x j" by auto
  then show ?thesis by (auto simp: in_set_enumerate_eq)
qed

lemma records_counts:
  assumes "normalizeRecords e doc = Inr records" "r \<in> set records"
  shows "\<exists>item \<in> set (castToRecordArray (doc_data doc)).
           pickNumber (playCountSource item) (Fin 0) = Inr (playCount r)
           \<and> pickNumber (danmakuCountSource item) (Fin 0) = Inr (danmakuCount r)"
proof -
  obtain item i where it: "item \<in> set (castToRecordArray (doc_data doc))"
    and r: "r = recordOf e doc item i"
    using records_are_recordOf [OF assms] by blast
  have nt: "\<not> toPrimitiveThrows (playCountSource item)"
    "\<not> toPrimitiveThrows (danmakuCountSource item)"
    using normalizeRecords_Inr(2) [OF assms(1)] it by auto
  have "pickNumber (playCountSource item) (Fin 0) = Inr (playCount r)"
    "pickNumber (danmakuCountSource item) (Fin 0) = Inr (danmakuCount r)"
    using nt by (simp_all add: r recordOf_def Let_def pickNumber_cases returned_def)
  then show ?thesis using it by blast
qed

text \<open>
  C4.  \<open>normalizeRecords\<close> throws on a document: when \<open>data\<close> is the array of the one entry
  \<open>{playCount: {toString: 0}}\<close>, the call \<open>Number(value)\<close> in \<open>pickNumber\<close> throws a
  \<open>TypeError\<close>, which nothing in \<open>normalizeRecords\<close> catches, so no sequence is returned.
\<close>

theorem normalizeRecords_throws:
  "normalizeRecords utcEnv
     (docOf (JArr [JObj [(js ''playCount'', JObj [(js ''toString'', JNum (Fin 0))])]]))
   = Inl TypeError"
  by (simp add: normalizeRecords_def flattened_def normalizeItem_def nullish_def docOf_def
    playCountSource_def coalesce_def pickNumber_def ToNumber_def js_def)

section \<open>Play and danmaku counts\<close>

lemma toDouble_3_2: "toDouble (3 / 2) = Fin (3 / 2)"
  using toDouble_exact [of 3 "- 1"] by (simp add: power_int_minus)

lemma ex_scenario1:
  "normalizeRecords utcEnv
     (docOf (JArr [JObj [(js ''playCount'', JStr (js ''12345'')), (js ''view'', JNum (Fin 9)),
                         (js ''danmakuCount'', JStr (js ''many''))]]))
   = Inr [\<lparr>key = js ''d-0'', title = [0x672A, 0x547D, 0x540D, 0x7A3F, 0x4EF6],
           uploader = [0x672A, 0x77E5, 0x6295, 0x7A3F, 0x8005], playCount = Fin 12345,
           duration = js ''00:00'', publishTime = [0x672A, 0x77E5, 0x65F6, 0x95F4],
           danmakuCount = Fin 0, coverUrl = None, videoUrl = None\<rparr>]"
  by (simp add: norm_eval num_eval)

text \<open>
  C1, as the claim states it, fails: an entry whose \<open>playCount\<close> is the number \<open>-5\<close> and
  whose \<open>reply\<close> is the number \<open>1.5\<close> gives a record with \<open>playCount = -5\<close> and
  \<open>danmakuCount = 1.5\<close>.
\<close>

theorem counts_counterexample:
  "normalizeRecords utcEnv
     (docOf (JArr [JObj [(js ''playCount'', JNum (Fin (- 5))), (js ''reply'', JNum (Fin (3 / 2)))]]))
   = Inr [\<lparr>key = js ''d-0'', title = [0x672A, 0x547D, 0x540D, 0x7A3F, 0x4EF6],
           uploader = [0x672A, 0x77E5, 0x6295, 0x7A3F, 0x8005], playCount = Fin (- 5),
           duration = js ''00:00'', publishTime = [0x672A, 0x77E5, 0x65F6, 0x95F4],
           danmakuCount = Fin (3 / 2), coverUrl = None, videoUrl = None\<rparr>]"
  by (simp add: norm_eval num_eval toDouble_3_2)

text \<open>
  C1, amended.  In every record of a sequence that \<open>normalizeRecords\<close> returns,
  \<open>playCount\<close> and \<open>danmakuCount\<close> are finite numbers, never NaN and never an infinity:
  each is \<open>Number\<close> of the first aliased field of its entry that is neither \<open>null\<close> nor
  \<open>undefined\<close>, and 0 when that is not finite.  The sign and the fraction of the number are
  kept.
\<close>

theorem counts_finite:
  assumes "normalizeRecords e doc = Inr records" "r \<in> set records"
  shows "isFinite (playCount r) \<and> isFinite (danmakuCount r)
     \<and> (\<exists>item \<in> set (castToRecordArray (doc_data doc)). \<exists>plays danmakus.
          ToNumber (coalesce (coalesce (getProp item (js ''playCount''))
                                       (getProp item (js ''play_count'')))
                             (getProp item (js ''view''))) = Inr plays
          \<and> playCount r = (if isFinite plays then plays else Fin 0)
          \<and> ToNumber (coalesce (coalesce (coalesce (getProp item (js ''danmakuCount''))
                                                 (getProp item (js ''danmaku_count'')))
                                       (getProp item (js ''danmuCount'')))
                             (getProp item (js ''reply''))) = Inr danmakus
          \<and> danmakuCount r = (if isFinite danmakus then danmakus else Fin 0))"
proof -
  obtain item where it: "item \<in> set (castToRecordArray (doc_data doc))"
    and pc: "pickNumber (playCountSource item) (Fin 0) = Inr (playCount r)"
    and dc: "pickNumber (danmakuCountSource item) (Fin 0) = Inr (danmakuCount r)"
    using records_counts [OF assms] by blast
  obtain plays where p: "ToNumber (playCountSource item) = Inr plays"
    "playCount r = (if isFinite plays then plays else Fin 0)"
    using pc by (auto simp: pickNumber_def split: sum.splits)
  obtain danmakus where d: "ToNumber (danmakuCountSource item) = Inr danmakus"
    "danmakuCount r = (if isFinite danmakus then danmakus else Fin 0)"
    using dc by (auto simp: pickNumber_def split: sum.splits)
  have "isFinite (playCount r)" "isFinite (danmakuCount r)"
    using p(2) d(2) by simp_all
  moreover have "\<exists>item \<in> set (castToRecordArray (doc_data doc)). \<exists>plays danmakus.
          ToNumber (playCountSource item) = Inr plays
          \<and> playCount r = (if isFinite plays then plays else Fin 0)
          \<and> ToNumber (danmakuCountSource item) = Inr danmakus
          \<and> danmakuCount r = (if isFinite danmakus then danmakus else Fin 0)"
    using it p d by blast
  ultimately show ?thesis unfolding playCountSource_def danmakuCountSource_def by blast
qed

theorem counts_finite_witness:
  "isFinite (playCount \<lparr>key = js ''d-0'', title = [0x672A, 0x547D, 0x540D, 0x7A3F, 0x4EF6],
           uploader = [0x672A, 0x77E5, 0x6295, 0x7A3F, 0x8005], playCount = Fin 12345,
           duration = js ''00:00'', publishTime = [0x672A, 0x77E5, 0x65F6, 0x95F4],
           danmakuCount = Fin 0, coverUrl = None, videoUrl = None\<rparr>)
   \<and> isFinite (danmakuCount \<lparr>key = js ''d-0'', title = [0x672A, 0x547D, 0x540D, 0x7A3F, 0x4EF6],
           uploader = [0x672A, 0x77E5, 0x6295, 0x7A3F, 0x8005], playCount = Fin 12345,
           duration = js ''00:00'', publishTime = [0x672A, 0x77E5, 0x65F6, 0x95F4],
           danmakuCount = Fin 0, coverUrl = None, videoUrl = None\<rparr>)"
  using counts_finite [OF ex_scenario1] by simp

section \<open>Two runs on one document\<close>

lemma env_eq_formatDateTime:
  "localTZA e1 = localTZA e2 \<Longrightarrow> formatDateTime e1 d = formatDateTime e2 d"
  by (simp add: formatDateTime_def getFullYear_def getMonth_def getDate_def getHours_def
      getMinutes_def getSeconds_def LocalTime_def)

lemma env_eq_coerceToDate:
  "dateParse e1 = dateParse e2 \<Longrightarrow> coerceToDate e1 v = coerceToDate e2 v"
  by (simp add: coerceToDate_def Let_def split: jsvalue.split option.split)

lemma env_eq_firstTimestamp:
  "localTZA e1 = localTZA e2 \<Longrightarrow> dateParse e1 = dateParse e2 \<Longrightarrow>
   firstTimestamp e1 vs = firstTimestamp e2 vs"
  by (induction vs)
    (simp_all add: env_eq_coerceToDate [of e1 e2] env_eq_formatDateTime [of e1 e2]
      split: option.split)

lemma env_eq_coverUrlOf:
  "NEXT_PUBLIC_CLOUD_STORAGE_DOMAIN e1 = NEXT_PUBLIC_CLOUD_STORAGE_DOMAIN e2 \<Longrightarrow>
   coverUrlOf e1 c = coverUrlOf e2 c"
  by (simp add: coverUrlOf_def COVER_BASE_URL_def CLOUD_STORAGE_DOMAIN_def split: option.split)

lemma env_eq_recordOf:
  assumes "localTZA e1 = localTZA e2" "dateParse e1 = dateParse e2"
    "NEXT_PUBLIC_CLOUD_STORAGE_DOMAIN e1 = NEXT_PUBLIC_CLOUD_STORAGE_DOMAIN e2"
  shows "recordOf e1 doc item i = recordOf e2 doc item i"
  by (simp add: recordOf_def resolvePublishTime_def env_eq_firstTimestamp [OF assms(1,2)]
      env_eq_coverUrlOf [OF assms(3)])

text \<open>
  C7.  Two calls of \<open>normalizeRecords\<close> on the same document return the same result (the
  same sequence, or the same throw) whenever the two environments agree on the time zone,
  on the host's parser of date strings and on the configured storage domain; the wall
  clock of a call, which alone must differ between two calls, is not read.
\<close>

theorem normalizeRecords_two_runs:
  assumes "localTZA e1 = localTZA e2" "dateParse e1 = dateParse e2"
    "NEXT_PUBLIC_CLOUD_STORAGE_DOMAIN e1 = NEXT_PUBLIC_CLOUD_STORAGE_DOMAIN e2"
  shows "normalizeRecords e1 doc = normalizeRecords e2 doc"
  by (simp add: normalizeRecords_eq env_eq_recordOf [OF assms])

theorem normalizeRecords_two_runs_witness:
  "normalizeRecords (utcEnv\<lparr>now := 1700000000000\<rparr>)
      (docOf (JArr [JObj [(js ''publishTime'', JNum (Fin 1700000000))]]))
   = normalizeRecords (utcEnv\<lparr>now := 1800000000000\<rparr>)
      (docOf (JArr [JObj [(js ''publishTime'', JNum (Fin 1700000000))]]))"
  by (rule normalizeRecords_two_runs) (simp_all add: utcEnv_def)

section \<open>Cover URLs\<close>

lemma trim_Nil: "trim [] = []"
  by (simp add: trim_def)

text \<open>
  C8, as the claim states it, fails: a cover field that is present and not empty, the string
  of one space, gives \<open>coverUrl = null\<close> and not the base URL followed by the string.
\<close>

theorem coverUrl_counterexample:
  "js '' '' \<noteq> [] \<and>
   normalizeRecords utcEnv (docOf (JArr [JObj [(js ''cover'', JStr (js '' ''))]]))
   = Inr [\<lparr>key = js ''d-0'', title = [0x672A, 0x547D, 0x540D, 0x7A3F, 0x4EF6],
           uploader = [0x672A, 0x77E5, 0x6295, 0x7A3F, 0x8005], playCount = Fin 0,
           duration = js ''00:00'', publishTime = [0x672A, 0x77E5, 0x65F6, 0x95F4],
           danmakuCount = Fin 0, coverUrl = None, videoUrl = None\<rparr>]"
  by (simp add: norm_eval num_eval)

text \<open>
  C8, amended.  For an entry whose \<open>cover\<close> is a string with a character that is not white
  space: a cover that starts with \<open>//\<close> gets \<open>https:\<close> in front, a cover that starts with
  \<open>http://\<close> or \<open>https://\<close> is kept, any other cover gets the configured cover base in
  front.  When \<open>cover\<close> is absent, not a string, empty or all white space, \<open>coverUrl\<close> is
  \<open>null\<close>.  So \<open>//example.com/a.jpg\<close> gives \<open>https://example.com/a.jpg\<close> and \<open>abc.jpg\<close>
  gives the base followed by \<open>abc.jpg\<close>.  Every record of \<open>normalizeRecords\<close> is the record
  of one of the entries.
\<close>

theorem coverUrl_rules:
  "(getProp item (js ''cover'') = JStr c \<and> trim c \<noteq> [] \<longrightarrow>
      coverUrl (recordOf e doc item i) =
        Some (if startsWith c (js ''//'') then js ''https:'' @ c
              else if startsWith c (js ''http://'') \<or> startsWith c (js ''https://'') then c
              else COVER_BASE_URL e @ c))
   \<and> ((\<forall>s. getProp item (js ''cover'') = JStr s \<longrightarrow> trim s = [])
        \<longrightarrow> coverUrl (recordOf e doc item i) = None)
   \<and> coverUrl (recordOf e doc (JObj [(js ''cover'', JStr (js ''//example.com/a.jpg''))]) i)
        = Some (js ''https://example.com/a.jpg'')
   \<and> coverUrl (recordOf e doc (JObj [(js ''cover'', JStr (js ''abc.jpg''))]) i)
        = Some (COVER_BASE_URL e @ js ''abc.jpg'')
   \<and> (normalizeRecords e doc = Inr records \<and> r \<in> set records \<longrightarrow>
        (\<exists>entry \<in> set (castToRecordArray (doc_data doc)). \<exists>j. r = recordOf e doc entry j))"
proof -
  have cu: "coverUrl (recordOf e doc item i) = coverUrlOf e (pickString [getProp item (js ''cover'')])"
    for item
    by (simp add: recordOf_def Let_def)
  have a: "getProp item (js ''cover'') = JStr c \<and> trim c \<noteq> [] \<longrightarrow>
      coverUrl (recordOf e doc item i) =
        Some (if startsWith c (js ''//'') then js ''https:'' @ c
              else if startsWith c (js ''http://'') \<or> startsWith c (js ''https://'') then c
              else COVER_BASE_URL e @ c)"
    by (auto simp: cu coverUrlOf_def trim_Nil)
  have b: "(\<forall>s. getProp item (js ''cover'') = JStr s \<longrightarrow> trim s = [])
        \<longrightarrow> coverUrl (recordOf e doc item i) = None"
    by (cases "getProp item (js ''cover'')") (auto simp: cu coverUrlOf_def)
  have c1: "coverUrl (recordOf e doc (JObj [(js ''cover'', JStr (js ''//example.com/a.jpg''))]) i)
        = Some (js ''https://example.com/a.jpg'')"
    by (simp add: cu coverUrlOf_def startsWith_def trim_def isWhiteSpace_def js_def)
  have c2: "coverUrl (recordOf e doc (JObj [(js ''cover'', JStr (js ''abc.jpg''))]) i)
        = Some (COVER_BASE_URL e @ js ''abc.jpg'')"
    by (simp add: cu coverUrlOf_def startsWith_def trim_def isWhiteSpace_def js_def)
  show ?thesis using a b c1 c2 records_are_recordOf [of e doc records r] by blast
qed

theorem coverUrl_rules_witness:
  "coverUrl (recordOf utcEnv (docOf JNull) (JObj [(js ''cover'', JStr (js ''http://h/c.png''))]) 0)
     = Some (js ''http://h/c.png'')
   \<and> coverUrl (recordOf utcEnv (docOf JNull) (JObj [(js ''cover'', JNum (Fin 5))]) 0) = None
   \<and> coverUrl (recordOf utcEnv (docOf JNull) (JObj [(js ''cover'', JStr (js ''  ''))]) 0) = None"
proof -
  have g1: "getProp (JObj [(js ''cover'', JStr (js ''http://h/c.png''))]) (js ''cover'')
      = JStr (js ''http://h/c.png'') \<and> trim (js ''http://h/c.png'') \<noteq> []"
    by (simp add: trim_def isWhiteSpace_def js_def)
  have s1: "\<not> startsWith (js ''http://h/c.png'') (js ''//'')"
    "startsWith (js ''http://h/c.png'') (js ''http://'')"
    by (simp_all add: startsWith_def js_def)
  have g2: "\<forall>s. getProp (JObj [(js ''cover'', JNum (Fin 5))]) (js ''cover'') = JStr s
      \<longrightarrow> trim s = []"
    by simp
  have g3: "\<forall>s. getProp (JObj [(js ''cover'', JStr (js ''  ''))]) (js ''cover'') = JStr s
      \<longrightarrow> trim s = []"
    by (simp add: trim_def isWhiteSpace_def js_def)
  show ?thesis
    using coverUrl_rules [of "JObj [(js ''cover'', JStr (js ''http://h/c.png''))]"
        "js ''http://h/c.png''" utcEnv "docOf JNull" 0]
      coverUrl_rules [of "JObj [(js ''cover'', JNum (Fin 5))]" _ utcEnv "docOf JNull" 0]
      coverUrl_rules [of "JObj [(js ''cover'', JStr (js ''  ''))]" _ utcEnv "docOf JNull" 0]
      g1 s1 g2 g3
    by simp
qed

section \<open>Order of the records\<close>

text \<open>Every number the conversions give is a binary64 value: a multiple of \<open>2 ^ (- 1074)\<close>.\<close>

lemma valueOf_js_neg: "valueOf (js_neg n) = - valueOf n"
  by (cases n) simp_all

lemma grid_parseUnsignedDecimal: "onGrid (valueOf (parseUnsignedDecimal s))"
  by (simp add: parseUnsignedDecimal_def Let_def grid_toDouble onGrid_0 split: option.split)

lemma grid_parseDecimal: "onGrid (valueOf (parseDecimal t))"
  by (cases t)
    (simp_all add: parseDecimal_def valueOf_js_neg grid_parseUnsignedDecimal onGrid_minus onGrid_0)

lemma grid_parseRadix: "onGrid (valueOf (parseRadix b ds))"
  by (simp add: parseRadix_def grid_toDouble onGrid_0)

lemma grid_StringToNumber: "onGrid (valueOf (StringToNumber s))"
  by (simp add: StringToNumber_def Let_def grid_parseRadix grid_parseDecimal onGrid_0)

lemma grid_numberOf: "onGrid (valueOf (numberOf n))"
  by (cases n) (simp_all add: grid_toDouble onGrid_0)

lemma grid_numberValue: "onGrid (valueOf (numberValue v))"
  by (induction v rule: numberValue.induct)
    (simp_all add: grid_numberOf grid_StringToNumber grid_toDouble onGrid_0
      onGrid_of_int [of 1, simplified] split: option.split)

lemma grid_pickNumber:
  "pickNumber v (Fin 0) = Inr n \<Longrightarrow> isFinite n \<and> onGrid (valueOf n)"
  by (auto simp: pickNumber_cases grid_numberValue onGrid_0 split: if_splits)

text \<open>
  The difference of two binary64 values does not round to a zero unless it is zero, so the
  comparator \<open>b - a\<close> is positive exactly when \<open>a < b\<close>.
\<close>

lemma js_sub_pos:
  assumes "isFinite a" "isFinite b" "onGrid (valueOf a)" "onGrid (valueOf b)"
  shows "js_gt (js_sub b a) (Fin 0) \<longleftrightarrow> valueOf a < valueOf b"
proof -
  have g: "onGrid (valueOf b - valueOf a)"
    by (rule onGrid_diff [OF assms(4) assms(3)])
  have d: "js_gt (toDouble (valueOf b - valueOf a)) (Fin 0) \<longleftrightarrow> valueOf a < valueOf b"
    using js_gt_toDouble_0 [OF g] by simp
  have z: "js_gt NZero (Fin 0) = False" by (simp add: js_gt_def)
  have "js_sub b a = (if b = NZero \<and> js_neg a = NZero then NZero
                      else toDouble (valueOf b - valueOf a))"
    using assms(1,2) by (cases a; cases b) (simp_all add: js_sub_def js_add_def)
  moreover have "b = NZero \<and> js_neg a = NZero \<Longrightarrow> \<not> valueOf a < valueOf b"
    by (cases a) (auto split: if_splits)
  ultimately show ?thesis using d z by auto
qed

lemma byPlayCountDesc_pos:
  "isFinite (playCount x) \<Longrightarrow> isFinite (playCount y) \<Longrightarrow>
   onGrid (valueOf (playCount x)) \<Longrightarrow> onGrid (valueOf (playCount y)) \<Longrightarrow>
   js_gt (byPlayCountDesc x y) (Fin 0) \<longleftrightarrow> valueOf (playCount x) < valueOf (playCount y)"
  unfolding byPlayCountDesc_def by (rule js_sub_pos)

lemma insertBy_insort_key:
  assumes "\<And>y. y \<in> set ys \<Longrightarrow> js_gt (cmp x y) (Fin 0) \<longleftrightarrow> \<not> f x \<le> f y"
  shows "insertBy cmp x ys = insort_key f x ys"
  using assms by (induction ys) auto

lemma js_sort_sort_key:
  assumes "\<And>x y. x \<in> set xs \<Longrightarrow> y \<in> set xs \<Longrightarrow> js_gt (cmp x y) (Fin 0) \<longleftrightarrow> \<not> f x \<le> f y"
  shows "js_sort cmp xs = sort_key f xs"
  using assms
proof (induction xs)
  case Nil
  then show ?case by (simp add: js_sort_def)
next
  case (Cons a xs)
  have ih: "js_sort cmp xs = sort_key f xs"
    using Cons by simp
  have "insertBy cmp a (sort_key f xs) = insort_key f a (sort_key f xs)"
    by (rule insertBy_insort_key) (use Cons.prems in simp)
  then show ?case
    using ih by (simp add: js_sort_def sort_key_def)
qed

lemma js_sort_playCount:
  assumes "\<forall>r \<in> set xs. isFinite (playCount r) \<and> onGrid (valueOf (playCount r))"
  shows "js_sort byPlayCountDesc xs = sort_key (\<lambda>r. - valueOf (playCount r)) xs"
  by (rule js_sort_sort_key) (use assms in \<open>auto simp: byPlayCountDesc_pos\<close>)

lemma recordOf_finite:
  assumes "\<not> toPrimitiveThrows (playCountSource x)"
  shows "isFinite (playCount (recordOf e doc x j))
     \<and> onGrid (valueOf (playCount (recordOf e doc x j)))"
proof -
  have "pickNumber (playCountSource x) (Fin 0) = Inr (playCount (recordOf e doc x j))"
    using assms by (simp add: recordOf_def Let_def pickNumber_cases returned_def)
  then show ?thesis by (rule grid_pickNumber)
qed

lemma unsorted_finite:
  assumes "\<forall>x \<in> set xs. \<not> toPrimitiveThrows (playCountSource x)"
  shows "\<forall>r \<in> set (map (\<lambda>(j, x). recordOf e doc x j) (enumerate i xs)).
           isFinite (playCount r) \<and> onGrid (valueOf (playCount r))"
proof
  fix r assume "r \<in> set (map (\<lambda>(j, x). recordOf e doc x j) (enumerate i xs))"
  then obtain j x where "(j, x) \<in> set (enumerate i xs)" "r = recordOf e doc x j" by auto
  then have "x \<in> set xs" "r = recordOf e doc x j" by (auto simp: in_set_enumerate_eq)
  then show "isFinite (playCount r) \<and> onGrid (valueOf (playCount r))"
    using assms recordOf_finite by blast
qed

lemma records_finite:
  assumes "normalizeRecords e doc = Inr records" "r \<in> set records"
  shows "isFinite (playCount r)"
  using records_counts [OF assms] grid_pickNumber by blast

lemma js_ge_finite:
  "isFinite a \<Longrightarrow> isFinite b \<Longrightarrow> js_ge a b \<longleftrightarrow> valueOf b \<le> valueOf a"
  by (cases a; cases b) auto

lemma sorted_desc:
  assumes "\<forall>r \<in> set xs. isFinite (playCount r)"
    and "sorted (map (\<lambda>r. - valueOf (playCount r)) xs)"
  shows "sorted_wrt (\<lambda>a b. js_ge (playCount a) (playCount b)) xs"
  using assms by (induction xs) (auto simp: js_ge_finite)

lemma filter_filter_eq:
  assumes "filter Q xs = filter Q ys" "\<And>x. P x \<Longrightarrow> Q x"
  shows "filter P xs = filter P ys"
proof -
  have "filter P zs = filter P (filter Q zs)" for zs
    using assms(2) by (induction zs) auto
  then show ?thesis using assms(1) by metis
qed

lemma sorted_wrt_adjacent:
  "sorted_wrt P xs \<Longrightarrow> Suc i < length xs \<Longrightarrow> P (xs ! i) (xs ! Suc i)"
  by (simp add: sorted_wrt_iff_nth_less)

text \<open>
  C2.  A sequence \<open>normalizeRecords\<close> returns is sorted by \<open>playCount\<close>, largest first: of
  any two records the earlier has the greater or equal \<open>playCount\<close>, adjacent ones in
  particular.  The sort is stable: the records of one numeric value of \<open>playCount\<close> (the
  two zeros are one value) are in the order they have in \<open>flattened\<close>, the order of their
  entries; so are, among them, the records with the same \<open>playCount\<close>.
\<close>

theorem normalizeRecords_sorted_stable:
  assumes "normalizeRecords e doc = Inr records"
  shows "\<exists>unsorted. flattened e doc = Inr unsorted
     \<and> sorted_wrt (\<lambda>a b. js_ge (playCount a) (playCount b)) records
     \<and> (\<forall>i. Suc i < length records
          \<longrightarrow> js_ge (playCount (records ! i)) (playCount (records ! Suc i)))
     \<and> (\<forall>q. filter (\<lambda>r. valueOf (playCount r) = q) records
             = filter (\<lambda>r. valueOf (playCount r) = q) unsorted)
     \<and> (\<forall>n. filter (\<lambda>r. playCount r = n) records = filter (\<lambda>r. playCount r = n) unsorted)
     \<and> (\<forall>r \<in> set records. isFinite (playCount r))
     \<and> length records = length unsorted \<and> set records = set unsorted"
proof -
  let ?u = "map (\<lambda>(j, x). recordOf e doc x j) (enumerate 0 (castToRecordArray (doc_data doc)))"
  let ?f = "\<lambda>r. - valueOf (playCount r)"
  let ?s = "js_sort byPlayCountDesc ?u"
  have rs: "records = ?s" by (rule normalizeRecords_Inr(1) [OF assms])
  have nt: "\<forall>x \<in> set (castToRecordArray (doc_data doc)). \<not> toPrimitiveThrows (playCountSource x)"
    using normalizeRecords_Inr(2) [OF assms] by blast
  have fl: "flattened e doc = Inr ?u"
    using normalizeRecords_Inr(2) [OF assms] by (auto simp: flattened_eq)
  have fin: "\<forall>r \<in> set ?u. isFinite (playCount r) \<and> onGrid (valueOf (playCount r))"
    by (rule unsorted_finite [OF nt])
  have s: "?s = sort_key ?f ?u" by (rule js_sort_playCount [OF fin])
  have fin': "\<forall>r \<in> set ?s. isFinite (playCount r)" using fin by (simp add: s)
  have sorted: "sorted_wrt (\<lambda>a b. js_ge (playCount a) (playCount b)) ?s"
    by (rule sorted_desc [OF fin']) (simp add: s)
  have adj: "\<forall>i. Suc i < length ?s \<longrightarrow> js_ge (playCount (?s ! i)) (playCount (?s ! Suc i))"
    using sorted_wrt_adjacent [OF sorted] by blast
  have stable: "filter (\<lambda>r. valueOf (playCount r) = q) ?s
                  = filter (\<lambda>r. valueOf (playCount r) = q) ?u" for q
    using sort_key_stable [of ?f "- q" ?u] by (simp add: s)
  have stable': "filter (\<lambda>r. playCount r = n) ?s = filter (\<lambda>r. playCount r = n) ?u" for n
    by (rule filter_filter_eq [OF stable [of "valueOf n"]]) simp
  have "length ?s = length ?u" "set ?s = set ?u" by (simp_all add: s)
  then show ?thesis
    unfolding rs using fl sorted adj stable stable' fin' by blast
qed

lemma ex_sort:
  "normalizeRecords utcEnv
     (docOf (JArr [JObj [(js ''id'', JStr (js ''a'')), (js ''view'', JNum (Fin 5))],
                   JObj [(js ''id'', JStr (js ''b'')), (js ''view'', JNum (Fin 7))],
                   JObj [(js ''id'', JStr (js ''c'')), (js ''view'', JStr (js ''5''))]]))
   = Inr (map (\<lambda>(k, n). \<lparr>key = k, title = [0x672A, 0x547D, 0x540D, 0x7A3F, 0x4EF6],
           uploader = [0x672A, 0x77E5, 0x6295, 0x7A3F, 0x8005], playCount = Fin n,
           duration = js ''00:00'', publishTime = [0x672A, 0x77E5, 0x65F6, 0x95F4],
           danmakuCount = Fin 0, coverUrl = None, videoUrl = None\<rparr>)
        [(js ''b'', 7), (js ''a'', 5), (js ''c'', 5)])"
  by (simp add: norm_eval num_eval)

theorem normalizeRecords_sorted_stable_witness:
  "\<exists>records unsorted.
     normalizeRecords utcEnv
       (docOf (JArr [JObj [(js ''id'', JStr (js ''a'')), (js ''view'', JNum (Fin 5))],
                     JObj [(js ''id'', JStr (js ''b'')), (js ''view'', JNum (Fin 7))],
                     JObj [(js ''id'', JStr (js ''c'')), (js ''view'', JStr (js ''5''))]]))
       = Inr records
     \<and> flattened utcEnv
       (docOf (JArr [JObj [(js ''id'', JStr (js ''a'')), (js ''view'', JNum (Fin 5))],
                     JObj [(js ''id'', JStr (js ''b'')), (js ''view'', JNum (Fin 7))],
                     JObj [(js ''id'', JStr (js ''c'')), (js ''view'', JStr (js ''5''))]]))
       = Inr unsorted
     \<and> map key records = [js ''b'', js ''a'', js ''c'']
     \<and> js_ge (playCount (records ! 0)) (playCount (records ! Suc 0))
     \<and> js_ge (playCount (records ! Suc 0)) (playCount (records ! Suc (Suc 0)))
     \<and> map key (filter (\<lambda>r. playCount r = Fin 5) unsorted) = [js ''a'', js ''c'']"
proof -
  let ?R = "map (\<lambda>(k, n). \<lparr>key = k, title = [0x672A, 0x547D, 0x540D, 0x7A3F, 0x4EF6],
           uploader = [0x672A, 0x77E5, 0x6295, 0x7A3F, 0x8005], playCount = Fin n,
           duration = js ''00:00'', publishTime = [0x672A, 0x77E5, 0x65F6, 0x95F4],
           danmakuCount = Fin 0, coverUrl = None, videoUrl = None\<rparr>)
        [(js ''b'', 7), (js ''a'', 5), (js ''c'', 5)]"
  note T = normalizeRecords_sorted_stable [OF ex_sort]
  then obtain unsorted where u: "flattened utcEnv
     (docOf (JArr [JObj [(js ''id'', JStr (js ''a'')), (js ''view'', JNum (Fin 5))],
                   JObj [(js ''id'', JStr (js ''b'')), (js ''view'', JNum (Fin 7))],
                   JObj [(js ''id'', JStr (js ''c'')), (js ''view'', JStr (js ''5''))]]))
      = Inr unsorted"
    and adj: "\<forall>i. Suc i < length ?R \<longrightarrow> js_ge (playCount (?R ! i)) (playCount (?R ! Suc i))"
    and st: "\<forall>n. filter (\<lambda>r. playCount r = n) ?R = filter (\<lambda>r. playCount r = n) unsorted"
    by blast
  have k: "map key ?R = [js ''b'', js ''a'', js ''c'']" by simp
  have f: "map key (filter (\<lambda>r. playCount r = Fin 5) unsorted) = [js ''a'', js ''c'']"
    using st [rule_format, of "Fin 5", symmetric] by simp
  have a0: "js_ge (playCount (?R ! 0)) (playCount (?R ! Suc 0))"
    using adj [rule_format, of 0] by simp
  have a1: "js_ge (playCount (?R ! Suc 0)) (playCount (?R ! Suc (Suc 0)))"
    using adj [rule_format, of "Suc 0"] by simp
  show ?thesis
    by (rule exI [of _ ?R], rule exI [of _ unsorted]) (intro conjI ex_sort u k a0 a1 f)
qed

section \<open>Keys\<close>

lemma natToString_nonempty: "natToString n \<noteq> []"
  by (subst natToString.simps) simp

lemma digit_char_inj:
  assumes "a < 10" "b < 10" "(of_nat (48 + a) :: 16 word) = of_nat (48 + b)"
  shows "a = b"
proof -
  have "take_bit 16 (48 + a) = take_bit 16 (48 + b)"
    using assms(3) unfolding word_of_nat_eq_iff by simp
  then show ?thesis using assms(1,2) by (simp add: take_bit_eq_mod)
qed

lemma natToString_inj: "natToString m = natToString n \<Longrightarrow> m = n"
proof (induction m arbitrary: n rule: natToString.induct)
  case (1 m)
  show ?case
  proof (cases "m < 10")
    case True
    then have m: "natToString m = [of_nat (48 + m)]" by (subst natToString.simps) simp
    show ?thesis
    proof (cases "n < 10")
      case n: True
      then have "natToString n = [of_nat (48 + n)]" by (subst natToString.simps) simp
      then show ?thesis using "1.prems" m True n digit_char_inj by auto
    next
      case False
      then have "natToString n = natToString (n div 10) @ [of_nat (48 + n mod 10)]"
        by (subst natToString.simps) simp
      then show ?thesis using "1.prems" m natToString_nonempty [of "n div 10"] by auto
    qed
  next
    case False
    then have m: "natToString m = natToString (m div 10) @ [of_nat (48 + m mod 10)]"
      by (subst natToString.simps) simp
    show ?thesis
    proof (cases "n < 10")
      case True
      then have "natToString n = [of_nat (48 + n)]" by (subst natToString.simps) simp
      then show ?thesis using "1.prems" m natToString_nonempty [of "m div 10"] by auto
    next
      case n: False
      then have "natToString n = natToString (n div 10) @ [of_nat (48 + n mod 10)]"
        by (subst natToString.simps) simp
      then have eq: "natToString (m div 10) = natToString (n div 10)"
        and d: "(of_nat (48 + m mod 10) :: 16 word) = of_nat (48 + n mod 10)"
        using "1.prems" m by auto
      have "m div 10 = n div 10" using "1.IH" [OF False eq] .
      moreover have "m mod 10 = n mod 10" by (rule digit_char_inj [OF _ _ d]) simp_all
      ultimately show ?thesis by (metis div_mult_mod_eq)
    qed
  qed
qed

lemma pickString_append:
  "pickString (xs @ ys) = (case pickString xs of Some s \<Rightarrow> Some s | None \<Rightarrow> pickString ys)"
  by (induction xs rule: pickString.induct) auto

lemma key_recordOf:
  "key (recordOf e doc x j)
     = (case pickString [getProp x (js ''id''), getProp x (js ''bvid'')] of
          Some s \<Rightarrow> s | None \<Rightarrow> doc_id doc @ js ''-'' @ natToString j)"
  using pickString_append [of "[getProp x (js ''id''), getProp x (js ''bvid'')]"
      "[JStr (doc_id doc @ js ''-'' @ natToString j)]"]
  by (simp add: recordOf_def Let_def split: option.split)

lemma keys_subset:
  "set (map (\<lambda>(j, x). case f x of Some s \<Rightarrow> s | None \<Rightarrow> fb j) (enumerate i xs))
     \<subseteq> set (List.map_filter f xs) \<union> fb ` {i ..< i + length xs}"
proof (induction xs arbitrary: i)
  case Nil
  then show ?case by simp
next
  case (Cons x xs)
  have "fb ` {Suc i ..< Suc i + length xs} \<subseteq> fb ` {i ..< i + length (x # xs)}"
    by (rule image_mono) auto
  moreover have "i \<in> {i ..< i + length (x # xs)}" by simp
  ultimately show ?case
    using Cons [of "Suc i"] by (auto simp: map_filter_simps split: option.splits)
qed

lemma keys_distinct_gen:
  assumes "distinct (List.map_filter f xs)"
    and "\<forall>s \<in> set (List.map_filter f xs). s \<notin> F"
    and "inj_on fb {i ..< i + length xs}" and "fb ` {i ..< i + length xs} \<subseteq> F"
  shows "distinct (map (\<lambda>(j, x). case f x of Some s \<Rightarrow> s | None \<Rightarrow> fb j) (enumerate i xs))"
  using assms
proof (induction xs arbitrary: i)
  case Nil
  then show ?case by simp
next
  case (Cons x xs)
  let ?k = "\<lambda>(j, x). case f x of Some s \<Rightarrow> s | None \<Rightarrow> fb j"
  have sub: "{Suc i ..< Suc i + length xs} \<subseteq> {i ..< i + length (x # xs)}" by auto
  have inj: "inj_on fb {Suc i ..< Suc i + length xs}"
    using Cons.prems(3) sub by (rule inj_on_subset)
  have img: "fb ` {Suc i ..< Suc i + length xs} \<subseteq> F"
    using Cons.prems(4) image_mono [OF sub, of fb] by blast
  have d: "distinct (List.map_filter f xs)" and nf: "\<forall>s \<in> set (List.map_filter f xs). s \<notin> F"
    using Cons.prems(1,2) by (auto simp: map_filter_simps split: option.splits)
  have rest: "distinct (map ?k (enumerate (Suc i) xs))"
    by (rule Cons.IH [OF d nf inj img])
  have tail: "set (map ?k (enumerate (Suc i) xs))
      \<subseteq> set (List.map_filter f xs) \<union> fb ` {Suc i ..< Suc i + length xs}"
    by (rule keys_subset)
  have head: "?k (i, x) \<notin> set (map ?k (enumerate (Suc i) xs))"
  proof (cases "f x")
    case None
    have "fb i \<in> F" using Cons.prems(4) by auto
    then have "fb i \<notin> set (List.map_filter f xs)" using nf by blast
    moreover have "fb i \<notin> fb ` {Suc i ..< Suc i + length xs}"
    proof
      assume "fb i \<in> fb ` {Suc i ..< Suc i + length xs}"
      then obtain j where j: "j \<in> {Suc i ..< Suc i + length xs}" "fb i = fb j" by blast
      have "i \<in> {i ..< i + length (x # xs)}" "j \<in> {i ..< i + length (x # xs)}"
        using j(1) by auto
      then have "i = j" using Cons.prems(3) j(2) by (auto dest: inj_onD)
      then show False using j(1) by simp
    qed
    ultimately show ?thesis using tail None by auto
  next
    case (Some s)
    have "s \<notin> set (List.map_filter f xs)"
      using Cons.prems(1) Some by (simp add: map_filter_simps)
    moreover have "s \<notin> F" using Cons.prems(2) Some by (simp add: map_filter_simps)
    then have "s \<notin> fb ` {Suc i ..< Suc i + length xs}" using img by blast
    ultimately show ?thesis using tail Some by auto
  qed
  show ?case using head rest by simp
qed

lemma distinct_map_sort_key: "distinct (map g (sort_key f xs)) = distinct (map g xs)"
  by (simp add: distinct_map)

lemma fallback_inj: "inj_on (\<lambda>j. d @ js ''-'' @ natToString j) A"
  by (rule inj_onI) (auto dest: natToString_inj)

text \<open>
  C3, as the claim states it, fails: two entries with the same \<open>id\<close> give two records with
  the same \<open>key\<close>.
\<close>

theorem keys_counterexample:
  "normalizeRecords utcEnv
     (docOf (JArr [JObj [(js ''id'', JStr (js ''x'')), (js ''view'', JNum (Fin 2))],
                   JObj [(js ''id'', JStr (js ''x'')), (js ''view'', JNum (Fin 1))]]))
   = Inr [\<lparr>key = js ''x'', title = [0x672A, 0x547D, 0x540D, 0x7A3F, 0x4EF6],
           uploader = [0x672A, 0x77E5, 0x6295, 0x7A3F, 0x8005], playCount = Fin 2,
           duration = js ''00:00'', publishTime = [0x672A, 0x77E5, 0x65F6, 0x95F4],
           danmakuCount = Fin 0, coverUrl = None, videoUrl = None\<rparr>,
          \<lparr>key = js ''x'', title = [0x672A, 0x547D, 0x540D, 0x7A3F, 0x4EF6],
           uploader = [0x672A, 0x77E5, 0x6295, 0x7A3F, 0x8005], playCount = Fin 1,
           duration = js ''00:00'', publishTime = [0x672A, 0x77E5, 0x65F6, 0x95F4],
           danmakuCount = Fin 0, coverUrl = None, videoUrl = None\<rparr>]"
  by (simp add: norm_eval num_eval)

text \<open>
  C3, amended.  The key of a record is the first string with a character that is not white
  space among the \<open>id\<close> of its entry, its \<open>bvid\<close> and the positional fallback, the document
  id, a hyphen and the index of the entry.  No two records of a document have the same key
  when the ids the entries bring (the first such string among \<open>id\<close> and \<open>bvid\<close>) are
  pairwise different and none of them is a positional fallback of the document.
\<close>

theorem keys_distinct:
  assumes "normalizeRecords e doc = Inr records"
    and "distinct (List.map_filter
           (\<lambda>x. pickString [getProp x (js ''id''), getProp x (js ''bvid'')])
           (castToRecordArray (doc_data doc)))"
    and "\<forall>s \<in> set (List.map_filter
           (\<lambda>x. pickString [getProp x (js ''id''), getProp x (js ''bvid'')])
           (castToRecordArray (doc_data doc))).
         s \<notin> set (map (\<lambda>j. doc_id doc @ js ''-'' @ natToString j)
                    [0 ..< length (castToRecordArray (doc_data doc))])"
  shows "distinct (map key records)
     \<and> (\<forall>r \<in> set records. \<exists>x \<in> set (castToRecordArray (doc_data doc)).
           \<exists>j < length (castToRecordArray (doc_data doc)).
           key r = (case pickString [getProp x (js ''id''), getProp x (js ''bvid'')] of
                      Some s \<Rightarrow> s | None \<Rightarrow> doc_id doc @ js ''-'' @ natToString j))"
proof -
  let ?segs = "castToRecordArray (doc_data doc)"
  let ?u = "map (\<lambda>(j, x). recordOf e doc x j) (enumerate 0 ?segs)"
  let ?f = "\<lambda>x. pickString [getProp x (js ''id''), getProp x (js ''bvid'')]"
  let ?fb = "\<lambda>j. doc_id doc @ js ''-'' @ natToString j"
  have rec: "records = js_sort byPlayCountDesc ?u"
    by (rule normalizeRecords_Inr(1) [OF assms(1)])
  have nt: "\<forall>x \<in> set ?segs. \<not> toPrimitiveThrows (playCountSource x)"
    using normalizeRecords_Inr(2) [OF assms(1)] by blast
  have s: "js_sort byPlayCountDesc ?u = sort_key (\<lambda>r. - valueOf (playCount r)) ?u"
    by (rule js_sort_playCount [OF unsorted_finite [OF nt]])
  have keys: "map key ?u = map (\<lambda>(j, x). case ?f x of Some s \<Rightarrow> s | None \<Rightarrow> ?fb j) (enumerate 0 ?segs)"
    by (auto simp: key_recordOf)
  have "distinct (map (\<lambda>(j, x). case ?f x of Some s \<Rightarrow> s | None \<Rightarrow> ?fb j) (enumerate 0 ?segs))"
  proof (rule keys_distinct_gen [where F = "?fb ` {0 ..< 0 + length ?segs}"])
    show "distinct (List.map_filter ?f ?segs)" by (rule assms(2))
    show "\<forall>s \<in> set (List.map_filter ?f ?segs). s \<notin> ?fb ` {0 ..< 0 + length ?segs}"
      using assms(3) by auto
    show "inj_on ?fb {0 ..< 0 + length ?segs}" by (rule fallback_inj)
    show "?fb ` {0 ..< 0 + length ?segs} \<subseteq> ?fb ` {0 ..< 0 + length ?segs}" by simp
  qed
  then have du: "distinct (map key ?u)" by (simp only: keys)
  have "distinct (map key records)"
    using du unfolding rec s by (simp only: distinct_map_sort_key)
  moreover have "\<forall>r \<in> set records. \<exists>x \<in> set ?segs. \<exists>j < length ?segs.
           key r = (case ?f x of Some s \<Rightarrow> s | None \<Rightarrow> ?fb j)"
  proof
    fix r assume "r \<in> set records"
    then have "r \<in> set ?u" by (simp add: rec s)
    then obtain j x where jx: "(j, x) \<in> set (enumerate 0 ?segs)" and r: "r = recordOf e doc x j"
      by auto
    have "x \<in> set ?segs" "j < length ?segs" using jx by (auto simp: in_set_enumerate_eq)
    then show "\<exists>x \<in> set ?segs. \<exists>j < length ?segs.
           key r = (case ?f x of Some s \<Rightarrow> s | None \<Rightarrow> ?fb j)"
      using r key_recordOf by blast
  qed
  ultimately show ?thesis by blast
qed

lemma ex_keys:
  "normalizeRecords utcEnv
     (docOf (JArr [JObj [(js ''id'', JStr (js ''a''))], JObj [],
                   JObj [(js ''id'', JStr (js '' '')), (js ''bvid'', JStr (js ''b''))]]))
   = Inr (map (\<lambda>k. \<lparr>key = k, title = [0x672A, 0x547D, 0x540D, 0x7A3F, 0x4EF6],
           uploader = [0x672A, 0x77E5, 0x6295, 0x7A3F, 0x8005], playCount = Fin 0,
           duration = js ''00:00'', publishTime = [0x672A, 0x77E5, 0x65F6, 0x95F4],
           danmakuCount = Fin 0, coverUrl = None, videoUrl = None\<rparr>)
        [js ''a'', js ''d-1'', js ''b''])"
  by (simp add: norm_eval num_eval)

theorem keys_distinct_witness:
  "distinct (map key (map (\<lambda>k. \<lparr>key = k, title = [0x672A, 0x547D, 0x540D, 0x7A3F, 0x4EF6],
           uploader = [0x672A, 0x77E5, 0x6295, 0x7A3F, 0x8005], playCount = Fin 0,
           duration = js ''00:00'', publishTime = [0x672A, 0x77E5, 0x65F6, 0x95F4],
           danmakuCount = Fin 0, coverUrl = None, videoUrl = None\<rparr>)
        [js ''a'', js ''d-1'', js ''b'']))"
proof -
  let ?doc = "docOf (JArr [JObj [(js ''id'', JStr (js ''a''))], JObj [],
                   JObj [(js ''id'', JStr (js '' '')), (js ''bvid'', JStr (js ''b''))]])"
  have ids: "List.map_filter (\<lambda>x. pickString [getProp x (js ''id''), getProp x (js ''bvid'')])
           (castToRecordArray (doc_data ?doc)) = [js ''a'', js ''b'']"
    by (simp add: docOf_def map_filter_simps trim_def isWhiteSpace_def js_def)
  have fbs: "map (\<lambda>j. doc_id ?doc @ js ''-'' @ natToString j)
                    [0 ..< length (castToRecordArray (doc_data ?doc))]
      = [js ''d-0'', js ''d-1'', js ''d-2'']"
    by (simp add: docOf_def natToString_digit js_def upt_rec_numeral)
  have h1: "distinct (List.map_filter (\<lambda>x. pickString [getProp x (js ''id''), getProp x (js ''bvid'')])
           (castToRecordArray (doc_data ?doc)))"
    unfolding ids by (simp add: js_def)
  have h2: "\<forall>s \<in> set (List.map_filter
           (\<lambda>x. pickString [getProp x (js ''id''), getProp x (js ''bvid'')])
           (castToRecordArray (doc_data ?doc))).
         s \<notin> set (map (\<lambda>j. doc_id ?doc @ js ''-'' @ natToString j)
                    [0 ..< length (castToRecordArray (doc_data ?doc))])"
    unfolding ids fbs by (simp add: js_def)
  show ?thesis using keys_distinct [OF ex_keys h1 h2] by blast
qed

section \<open>The play-count histogram\<close>

lemma inRange_extend: "inRange n (range.extend r m) = inRange n r"
  by (simp add: inRange_def range.defs)

lemma countInto_ranges:
  "countInto n (map (\<lambda>r. range.extend r (bucket.fields (g r))) PLAY_COUNT_RANGES)
     = map (\<lambda>r. range.extend r (bucket.fields (g r + (if inRange n r then 1 else 0))))
         PLAY_COUNT_RANGES"
  by (cases n) (auto simp: PLAY_COUNT_RANGES_def inRange_def range.defs bucket.defs)

lemma playCountDistribution_eq:
  "playCountDistribution videos
     = map (\<lambda>r. range.extend r
              (bucket.fields (length (filter (\<lambda>v. inRange (playCount v) r) videos))))
         PLAY_COUNT_RANGES"
proof (induction videos rule: rev_induct)
  case Nil
  then show ?case by (simp add: playCountDistribution_def)
next
  case (snoc v videos)
  have "playCountDistribution (videos @ [v])
      = countInto (playCount v) (playCountDistribution videos)"
    by (simp add: playCountDistribution_def)
  then show ?case
    by (simp add: snoc countInto_ranges)
qed

lemma ranges_hit:
  "length (filter (inRange n) PLAY_COUNT_RANGES)
     = (if js_ge n (Fin 0) \<and> js_lt n PInf then 1 else 0)"
  by (cases n) (auto simp: PLAY_COUNT_RANGES_def inRange_def)

lemma count_extend: "count (range.extend r (bucket.fields c)) = c"
  by (simp add: range.defs bucket.defs)

lemma sum_counts:
  "sum_list (map (\<lambda>r. length (filter (\<lambda>v. P v r) videos)) rs)
     = sum_list (map (\<lambda>v. length (filter (P v) rs)) videos)"
proof (induction videos)
  case Nil
  then show ?case by simp
next
  case (Cons v videos)
  have "sum_list (map (\<lambda>r. length (filter (\<lambda>v. P v r) (v # videos))) rs)
      = sum_list (map (\<lambda>r. (if P v r then 1 else 0) + length (filter (\<lambda>v. P v r) videos)) rs)"
    by (rule arg_cong [where f = sum_list]) auto
  also have "\<dots> = sum_list (map (\<lambda>r. if P v r then 1 else 0) rs)
      + sum_list (map (\<lambda>r. length (filter (\<lambda>v. P v r) videos)) rs)"
    by (simp add: sum_list_addf)
  also have "sum_list (map (\<lambda>r. if P v r then 1 else 0) rs) = length (filter (P v) rs)"
    by (induction rs) auto
  finally show ?case using Cons by simp
qed

lemma sum_indicator: "sum_list (map (\<lambda>v. if Q v then 1 else 0) vs) = length (filter Q vs)"
  by (induction vs) auto

text \<open>
  C5, as the claim states it, fails: the document with the one entry of \<open>playCount\<close> \<open>-5\<close>
  has one record, and all eight bucket counts of that sequence are 0.
\<close>

theorem histogram_counterexample:
  "normalizeRecords utcEnv (docOf (JArr [JObj [(js ''playCount'', JNum (Fin (- 5)))]]))
   = Inr [\<lparr>key = js ''d-0'', title = [0x672A, 0x547D, 0x540D, 0x7A3F, 0x4EF6],
           uploader = [0x672A, 0x77E5, 0x6295, 0x7A3F, 0x8005], playCount = Fin (- 5),
           duration = js ''00:00'', publishTime = [0x672A, 0x77E5, 0x65F6, 0x95F4],
           danmakuCount = Fin 0, coverUrl = None, videoUrl = None\<rparr>]
   \<and> map count (playCountDistribution
         [\<lparr>key = js ''d-0'', title = [0x672A, 0x547D, 0x540D, 0x7A3F, 0x4EF6],
           uploader = [0x672A, 0x77E5, 0x6295, 0x7A3F, 0x8005], playCount = Fin (- 5),
           duration = js ''00:00'', publishTime = [0x672A, 0x77E5, 0x65F6, 0x95F4],
           danmakuCount = Fin 0, coverUrl = None, videoUrl = None\<rparr>])
       = [0, 0, 0, 0, 0, 0, 0, 0]"
proof -
  have "map count (playCountDistribution [v\<lparr>playCount := Fin (- 5)\<rparr>]) = [0, 0, 0, 0, 0, 0, 0, 0]"
    for v
    by (simp add: playCountDistribution_def PLAY_COUNT_RANGES_def inRange_def range.defs
        bucket.defs)
  from this [of "\<lparr>key = js ''d-0'', title = [0x672A, 0x547D, 0x540D, 0x7A3F, 0x4EF6],
           uploader = [0x672A, 0x77E5, 0x6295, 0x7A3F, 0x8005], playCount = Fin (- 5),
           duration = js ''00:00'', publishTime = [0x672A, 0x77E5, 0x65F6, 0x95F4],
           danmakuCount = Fin 0, coverUrl = None, videoUrl = None\<rparr>"]
  show ?thesis by (simp add: norm_eval num_eval)
qed

text \<open>
  C5, amended.  The histogram has the eight buckets \<open>[0,1K)\<close>, \<open>[1K,5K)\<close>, \<open>[5K,10K)\<close>,
  \<open>[10K,50K)\<close>, \<open>[50K,100K)\<close>, \<open>[100K,500K)\<close>, \<open>[500K,1M)\<close>, \<open>[1M,\<infinity>)\<close>, each closed
  below and open above.  The count of a bucket is the number of records whose \<open>playCount\<close>
  is in its range; a number is in one range when it is at least 0 and below infinity and
  in none otherwise, so a record is counted in the first bucket that holds its \<open>playCount\<close>
  and in no other.  The eight counts add up to the number of records whose \<open>playCount\<close>
  is at least 0 (a record with a negative \<open>playCount\<close> is in no bucket).
\<close>

theorem histogram_buckets:
  "map (\<lambda>b. (range_min b, range_max b)) (playCountDistribution videos)
     = [(Fin 0, Fin 1000), (Fin 1000, Fin 5000), (Fin 5000, Fin 10000), (Fin 10000, Fin 50000),
        (Fin 50000, Fin 100000), (Fin 100000, Fin 500000), (Fin 500000, Fin 1000000),
        (Fin 1000000, PInf)]
   \<and> map count (playCountDistribution videos)
     = map (\<lambda>r. length (filter (\<lambda>v. inRange (playCount v) r) videos)) PLAY_COUNT_RANGES
   \<and> length (filter (inRange n) PLAY_COUNT_RANGES)
     = (if js_ge n (Fin 0) \<and> js_lt n PInf then 1 else 0)
   \<and> sum_list (map count (playCountDistribution videos))
     = length (filter (\<lambda>v. js_ge (playCount v) (Fin 0) \<and> js_lt (playCount v) PInf) videos)
   \<and> (normalizeRecords e doc = Inr videos \<longrightarrow>
        sum_list (map count (playCountDistribution videos))
          = length (filter (\<lambda>v. js_ge (playCount v) (Fin 0)) videos))"
proof -
  have a: "map (\<lambda>b. (range_min b, range_max b)) (playCountDistribution videos)
     = [(Fin 0, Fin 1000), (Fin 1000, Fin 5000), (Fin 5000, Fin 10000), (Fin 10000, Fin 50000),
        (Fin 50000, Fin 100000), (Fin 100000, Fin 500000), (Fin 500000, Fin 1000000),
        (Fin 1000000, PInf)]"
    unfolding playCountDistribution_eq
    by (simp add: PLAY_COUNT_RANGES_def range.defs bucket.defs)
  have b: "map count (playCountDistribution videos)
     = map (\<lambda>r. length (filter (\<lambda>v. inRange (playCount v) r) videos)) PLAY_COUNT_RANGES"
    unfolding playCountDistribution_eq by (simp add: count_extend comp_def)
  have c: "sum_list (map count (playCountDistribution videos))
     = length (filter (\<lambda>v. js_ge (playCount v) (Fin 0) \<and> js_lt (playCount v) PInf) videos)"
    unfolding b sum_counts [of "\<lambda>v. inRange (playCount v)"] ranges_hit
    by (rule sum_indicator)
  have d: "sum_list (map count (playCountDistribution videos))
          = length (filter (\<lambda>v. js_ge (playCount v) (Fin 0)) videos)"
    if nr: "normalizeRecords e doc = Inr videos"
  proof -
    have "filter (\<lambda>v. js_ge (playCount v) (Fin 0) \<and> js_lt (playCount v) PInf) videos
        = filter (\<lambda>v. js_ge (playCount v) (Fin 0)) videos"
    proof (rule filter_cong [OF refl])
      fix v assume "v \<in> set videos"
      then have "isFinite (playCount v)"
        by (rule records_finite [OF nr])
      then show "(js_ge (playCount v) (Fin 0) \<and> js_lt (playCount v) PInf)
          = js_ge (playCount v) (Fin 0)"
        by (cases "playCount v") auto
    qed
    then show ?thesis using c by simp
  qed
  show ?thesis using a b c d ranges_hit by blast
qed

lemma ex_hist:
  "normalizeRecords utcEnv
     (docOf (JArr [JObj [(js ''id'', JStr (js ''a'')), (js ''view'', JNum (Fin 1000))],
                   JObj [(js ''id'', JStr (js ''b'')), (js ''view'', JNum (Fin (- 1)))]]))
   = Inr (map (\<lambda>(k, n). \<lparr>key = k, title = [0x672A, 0x547D, 0x540D, 0x7A3F, 0x4EF6],
           uploader = [0x672A, 0x77E5, 0x6295, 0x7A3F, 0x8005], playCount = Fin n,
           duration = js ''00:00'', publishTime = [0x672A, 0x77E5, 0x65F6, 0x95F4],
           danmakuCount = Fin 0, coverUrl = None, videoUrl = None\<rparr>)
        [(js ''a'', 1000), (js ''b'', - 1)])"
  by (simp add: norm_eval num_eval)

theorem histogram_buckets_witness:
  "sum_list (map count (playCountDistribution
      (map (\<lambda>(k, n). \<lparr>key = k, title = [0x672A, 0x547D, 0x540D, 0x7A3F, 0x4EF6],
           uploader = [0x672A, 0x77E5, 0x6295, 0x7A3F, 0x8005], playCount = Fin n,
           duration = js ''00:00'', publishTime = [0x672A, 0x77E5, 0x65F6, 0x95F4],
           danmakuCount = Fin 0, coverUrl = None, videoUrl = None\<rparr>)
        [(js ''a'', 1000), (js ''b'', - 1)]))) = 1"
proof -
  let ?vs = "map (\<lambda>(k, n). \<lparr>key = k, title = [0x672A, 0x547D, 0x540D, 0x7A3F, 0x4EF6],
           uploader = [0x672A, 0x77E5, 0x6295, 0x7A3F, 0x8005], playCount = Fin n,
           duration = js ''00:00'', publishTime = [0x672A, 0x77E5, 0x65F6, 0x95F4],
           danmakuCount = Fin 0, coverUrl = None, videoUrl = None\<rparr>)
        [(js ''a'', 1000), (js ''b'', - 1)]"
  let ?doc = "docOf (JArr [JObj [(js ''id'', JStr (js ''a'')), (js ''view'', JNum (Fin 1000))],
                   JObj [(js ''id'', JStr (js ''b'')), (js ''view'', JNum (Fin (- 1)))]])"
  have "sum_list (map count (playCountDistribution ?vs))
      = length (filter (\<lambda>v. js_ge (playCount v) (Fin 0)) ?vs)"
    using histogram_buckets [of ?vs "Fin 0" utcEnv ?doc] ex_hist by blast
  also have "\<dots> = 1" by simp
  finally show ?thesis .
qed

section \<open>Title keywords\<close>

subsection \<open>The segments of a title\<close>

lemma split_not_Nil: "split sep s \<noteq> []"
  by (induction s) (auto split: list.split)

text \<open>The fields of \<open>split\<close> that are not empty are the runs between the separators.\<close>

lemma runsFrom_split:
  "runsFrom (\<lambda>c. c = sep) run s
     = (if run @ hd (split sep s) = [] then [] else [run @ hd (split sep s)])
       @ filter (\<lambda>x. x \<noteq> []) (tl (split sep s))"
proof (induction s arbitrary: run)
  case Nil
  then show ?case by simp
next
  case (Cons c cs)
  obtain h t where ht: "split sep cs = h # t"
    using split_not_Nil [of sep cs] by (cases "split sep cs") auto
  show ?case
  proof (cases "c = sep")
    case True
    then show ?thesis using Cons [of "[]"] ht by simp
  next
    case False
    then show ?thesis using Cons [of "run @ [c]"] ht by simp
  qed
qed

lemma filter_split: "filter (\<lambda>x. x \<noteq> []) (split sep s) = runsFrom (\<lambda>c. c = sep) [] s"
proof -
  obtain h t where ht: "split sep s = h # t"
    using split_not_Nil [of sep s] by (cases "split sep s") auto
  show ?thesis unfolding runsFrom_split ht by simp
qed

lemma runsFrom_replaceEach:
  assumes "q 0x20"
  shows "runsFrom q run (replaceEach cls s) = runsFrom (\<lambda>c. cls c \<or> q c) run s"
  using assms by (induction s arbitrary: run) (simp_all add: replaceEach_def)

lemma runsFrom_replaceRuns:
  assumes "q 0x20"
  shows "runsFrom q run (replaceRuns cls False s) = runsFrom (\<lambda>c. cls c \<or> q c) run s"
    and "runsFrom q [] (replaceRuns cls True s) = runsFrom (\<lambda>c. cls c \<or> q c) [] s"
  using assms by (induction s arbitrary: run) simp_all

lemma runsFrom_dropWhile: "runsFrom q [] (dropWhile q s) = runsFrom q [] s"
  by (induction s) simp_all

lemma runsFrom_snoc_sep: "q x \<Longrightarrow> runsFrom q run (xs @ [x]) = runsFrom q run xs"
  by (induction xs arbitrary: run) simp_all

lemma runsFrom_dropWhile_end: "runsFrom q run (rev (dropWhile q (rev s))) = runsFrom q run s"
  by (induction s rule: rev_induct) (simp_all add: runsFrom_snoc_sep)

lemma replaceRuns_space:
  "c \<in> set (replaceRuns isWhiteSpace b s) \<Longrightarrow> isWhiteSpace c \<Longrightarrow> c = 0x20"
  by (induction s arbitrary: b) (auto split: if_splits)

lemma space_isWhiteSpace: "isWhiteSpace 0x20"
  by (simp add: isWhiteSpace_def)

lemma runsFrom_trim:
  assumes "\<forall>c \<in> set s. isWhiteSpace c \<longrightarrow> c = 0x20"
  shows "runsFrom (\<lambda>c. c = 0x20) [] (trim s) = runsFrom (\<lambda>c. c = 0x20) [] s"
proof -
  have eq: "isWhiteSpace c \<longleftrightarrow> c = 0x20" if "c \<in> set s" for c
    using assms that space_isWhiteSpace by auto
  have d1: "dropWhile isWhiteSpace s = dropWhile (\<lambda>c. c = 0x20) s"
    by (rule dropWhile_cong) (simp_all add: eq)
  have sub: "set (dropWhile (\<lambda>c. c = 0x20) s) \<subseteq> set s" by (rule set_dropWhileD [THEN subsetI])
  have d2: "dropWhile isWhiteSpace (rev (dropWhile (\<lambda>c. c = 0x20) s))
      = dropWhile (\<lambda>c. c = 0x20) (rev (dropWhile (\<lambda>c. c = 0x20) s))"
    by (rule dropWhile_cong) (use sub eq in auto)
  show ?thesis
    unfolding trim_def d1 d2 by (simp only: runsFrom_dropWhile_end runsFrom_dropWhile)
qed

lemma separator_classes:
  "(\<lambda>c. isBracket c \<or> isPunctuation c \<or> isDigit c \<or> isWhiteSpace c \<or> c = 0x20) = isSeparator"
  using space_isWhiteSpace by (auto simp: isSeparator_def fun_eq_iff)

text \<open>
  The four replacements, the trimming and the split of \<open>segmentChineseText\<close> give the
  segments of the title.
\<close>

lemma segmentChineseText_segmentsOf:
  "segmentChineseText text = concat (map segmentWords (segmentsOf text))"
proof -
  let ?t2 = "replaceEach isPunctuation (replaceEach isBracket text)"
  let ?t4 = "replaceRuns isWhiteSpace False (replaceRuns isDigit False ?t2)"
  have "filter (\<lambda>s. s \<noteq> []) (split 0x20 (trim ?t4)) = runsFrom (\<lambda>c. c = 0x20) [] (trim ?t4)"
    by (rule filter_split)
  also have "\<dots> = runsFrom (\<lambda>c. c = 0x20) [] ?t4"
    by (rule runsFrom_trim) (use replaceRuns_space in blast)
  also have "\<dots> = runsFrom (\<lambda>c. isWhiteSpace c \<or> c = 0x20) [] (replaceRuns isDigit False ?t2)"
    by (rule runsFrom_replaceRuns(1)) simp
  also have "\<dots> = runsFrom (\<lambda>c. isDigit c \<or> isWhiteSpace c \<or> c = 0x20) [] ?t2"
    by (rule runsFrom_replaceRuns(1)) simp
  also have "\<dots> = runsFrom (\<lambda>c. isPunctuation c \<or> isDigit c \<or> isWhiteSpace c \<or> c = 0x20) []
                      (replaceEach isBracket text)"
    by (rule runsFrom_replaceEach) simp
  also have "\<dots> = runsFrom (\<lambda>c. isBracket c \<or> isPunctuation c \<or> isDigit c \<or> isWhiteSpace c
                                  \<or> c = 0x20) [] text"
    by (rule runsFrom_replaceEach) simp
  also have "\<dots> = segmentsOf text"
    unfolding separator_classes segmentsOf_def ..
  finally show ?thesis by (simp add: segmentChineseText_def Let_def)
qed

subsection \<open>The tokens of a segment\<close>

lemma concat_map_if:
  "concat (map (\<lambda>i. let word = W i in if C word then [word] else []) idxs)
     = filter C (map W idxs)"
  by (induction idxs) (simp_all add: Let_def)

lemma windowsOf_filter:
  "windowsOf seg len
     = filter (\<lambda>w. w \<notin> set STOP_WORDS \<and> w \<noteq> [] \<and> list_all isIdeograph w)
         (map (\<lambda>i. sliceStr seg i (i + len)) [0 ..< length seg + 1 - len])"
proof -
  have "(if len \<le> length seg then [0 ..< length seg - len + 1] else [])
      = [0 ..< length seg + 1 - len]"
    by (simp add: Suc_diff_le)
  then show ?thesis unfolding windowsOf_def concat_map_if by simp
qed

lemma concat_map_if_set:
  "set (concat (map (\<lambda>i. let word = W i in if C word then [word] else []) idxs))
     = {w. \<exists>i \<in> set idxs. w = W i \<and> C w}"
  by (induction idxs) (auto simp: Let_def)

lemma window_indices:
  "set (if len \<le> length seg then [0 ..< length seg - len + 1] else [])
     = {i. i + len \<le> length (seg :: jsstring)}"
  by auto

lemma windowsOf_set:
  "set (windowsOf seg len)
     = {w. \<exists>i. i + len \<le> length seg \<and> w = sliceStr seg i (i + len) \<and> w \<noteq> []
             \<and> list_all isIdeograph w \<and> w \<notin> set STOP_WORDS}"
  unfolding windowsOf_def concat_map_if_set window_indices by blast

lemma windowsOf_not_stop: "w \<in> set (windowsOf seg len) \<Longrightarrow> w \<notin> set STOP_WORDS"
  by (auto simp: windowsOf_set)

lemma segmentWords_not_stop: "w \<in> set (segmentWords seg) \<Longrightarrow> w \<notin> set STOP_WORDS"
  by (auto simp: segmentWords_def windowsOf_not_stop split: if_splits)

lemma segmentChineseText_not_stop: "w \<in> set (segmentChineseText t) \<Longrightarrow> w \<notin> set STOP_WORDS"
  by (auto simp: segmentChineseText_def Let_def segmentWords_not_stop)

lemma slice_nonempty: "2 \<le> len \<Longrightarrow> i + len \<le> length seg \<Longrightarrow> sliceStr seg i (i + len) \<noteq> []"
  by (auto simp: sliceStr_def)

lemma windowsOf_set2:
  assumes "2 \<le> len"
  shows "set (windowsOf seg len)
     = {w. \<exists>i. i + len \<le> length seg \<and> w = sliceStr seg i (i + len)
             \<and> list_all isIdeograph w \<and> w \<notin> set STOP_WORDS}"
  unfolding windowsOf_set using slice_nonempty [OF assms] by blast

lemma segmentWords_cjk:
  assumes "\<not> (seg \<noteq> [] \<and> list_all isLatin seg)"
  shows "segmentWords seg = windowsOf seg 4 @ windowsOf seg 3 @ windowsOf seg 2"
    and "set (segmentWords seg)
     = {w. \<exists>i len. 2 \<le> len \<and> len \<le> 4 \<and> i + len \<le> length seg \<and> w = sliceStr seg i (i + len)
             \<and> list_all isIdeograph w \<and> w \<notin> set STOP_WORDS}"
proof -
  show eq: "segmentWords seg = windowsOf seg 4 @ windowsOf seg 3 @ windowsOf seg 2"
    using assms by (auto simp: segmentWords_def)
  show "set (segmentWords seg)
     = {w. \<exists>i len. 2 \<le> len \<and> len \<le> 4 \<and> i + len \<le> length seg \<and> w = sliceStr seg i (i + len)
             \<and> list_all isIdeograph w \<and> w \<notin> set STOP_WORDS}"
  proof (rule set_eqI)
    fix w
    have len: "(len = 4 \<or> len = 3 \<or> len = 2) = (2 \<le> len \<and> len \<le> 4)" for len :: nat
      by arith
    have "w \<in> set (segmentWords seg) \<longleftrightarrow>
        (\<exists>len. (len = 4 \<or> len = 3 \<or> len = 2) \<and> w \<in> set (windowsOf seg len))"
      unfolding eq by auto
    also have "\<dots> \<longleftrightarrow> (\<exists>len. (2 \<le> len \<and> len \<le> 4) \<and> w \<in> set (windowsOf seg len))"
      unfolding len ..
    also have "\<dots> \<longleftrightarrow> (\<exists>i len. 2 \<le> len \<and> len \<le> 4 \<and> i + len \<le> length seg
        \<and> w = sliceStr seg i (i + len) \<and> list_all isIdeograph w \<and> w \<notin> set STOP_WORDS)"
      using windowsOf_set2 [of _ seg] by blast
    finally show "w \<in> set (segmentWords seg) \<longleftrightarrow>
        w \<in> {w. \<exists>i len. 2 \<le> len \<and> len \<le> 4 \<and> i + len \<le> length seg
               \<and> w = sliceStr seg i (i + len) \<and> list_all isIdeograph w \<and> w \<notin> set STOP_WORDS}"
      by simp
  qed
qed

lemma segmentWords_latin:
  assumes "seg \<noteq> []" "list_all isLatin seg"
  shows "segmentWords seg
     = (if 2 \<le> length seg \<and> toLowerCase seg \<notin> set STOP_WORDS then [toLowerCase seg] else [])"
  using assms by (simp add: segmentWords_def)

subsection \<open>The frequency table\<close>

lemma foldl_concat: "foldl (\<lambda>a x. foldl f a (g x)) a xs = foldl f a (concat (map g xs))"
  by (induction xs arbitrary: a) auto

lemma map_of_setOwn: "map_of (setOwn k v tbl) = (map_of tbl)(k \<mapsto> v)"
  by (induction tbl) (auto simp: fun_eq_iff)

lemma keys_setOwn: "fst ` set (setOwn k v tbl) = insert k (fst ` set tbl)"
  by (induction tbl) auto

lemma distinct_setOwn: "distinct (map fst tbl) \<Longrightarrow> distinct (map fst (setOwn k v tbl))"
proof (induction tbl)
  case Nil
  then show ?case by simp
next
  case (Cons p tbl)
  have "fst ` set (setOwn k v tbl) = insert k (fst ` set tbl)" by (rule keys_setOwn)
  then show ?case using Cons by auto
qed

lemma keys_addWord: "fst ` set (addWord tbl w) = insert w (fst ` set tbl)"
  by (simp add: addWord_def keys_setOwn split: option.split freq.split)

lemma distinct_addWord: "distinct (map fst tbl) \<Longrightarrow> distinct (map fst (addWord tbl w))"
  by (simp add: addWord_def distinct_setOwn split: option.split freq.split)

lemma keys_foldl_addWord: "fst ` set (foldl addWord tbl ws) = fst ` set tbl \<union> set ws"
  by (induction ws arbitrary: tbl) (auto simp: keys_addWord)

lemma distinct_foldl_addWord:
  "distinct (map fst tbl) \<Longrightarrow> distinct (map fst (foldl addWord tbl ws))"
  by (induction ws arbitrary: tbl) (auto simp: distinct_addWord)

lemma map_of_addWord:
  "map_of (addWord tbl w) k
     = (if k = w then
          (case map_of tbl w of
             Some (Count n) \<Rightarrow> Some (Count (js_add n (Fin 1)))
           | Some Text \<Rightarrow> Some Text
           | None \<Rightarrow> if w = js ''constructor'' then Some Text
                     else Some (Count (js_add (Fin 0) (Fin 1))))
        else map_of tbl k)"
  by (simp add: addWord_def map_of_setOwn split: option.split freq.split)

lemma increment_swap:
  "((\<lambda>x. js_add x (Fin 1)) ^^ n) (js_add x (Fin 1))
     = js_add (((\<lambda>x. js_add x (Fin 1)) ^^ n) x) (Fin 1)"
  using funpow_swap1 [of "\<lambda>x. js_add x (Fin 1)" n x] by simp

text \<open>The count of a word is 0 incremented once for each of its occurrences.\<close>

lemma map_of_foldl_addWord:
  "map_of (foldl addWord tbl ws) k
     = (case map_of tbl k of
          Some (Count n) \<Rightarrow> Some (Count (((\<lambda>x. js_add x (Fin 1)) ^^ count_list ws k) n))
        | Some Text \<Rightarrow> Some Text
        | None \<Rightarrow> if count_list ws k = 0 then None
                  else if k = js ''constructor'' then Some Text
                  else Some (Count (((\<lambda>x. js_add x (Fin 1)) ^^ count_list ws k) (Fin 0))))"
proof (induction ws arbitrary: tbl)
  case Nil
  then show ?case by (simp split: option.split freq.split)
next
  case (Cons w ws)
  show ?case
    by (simp add: Cons map_of_addWord increment_swap split: option.split freq.split)
qed

text \<open>
  Incrementing is exact up to \<open>2 ^ 53\<close>, where it stops: \<open>2 ^ 53 + 1\<close> is no binary64 value
  and rounds back.
\<close>

lemma increment_below:
  assumes "n < 9007199254740991"
  shows "js_add (Fin (of_nat n)) (Fin 1) = Fin (of_nat (n + 1))"
proof -
  have "toDouble (of_int (int n + 1)) = Fin (of_int (int n + 1))"
    by (rule toDouble_int) (use assms in simp)
  then show ?thesis by (simp add: js_add_def)
qed

lemma increment_last: "js_add (Fin 9007199254740991) (Fin 1) = Fin 9007199254740992"
proof -
  have "toDouble (of_int 1 * 2 powi 53) = Fin (of_int 1 * 2 powi 53)"
    by (rule toDouble_exact) simp_all
  then show ?thesis by (simp add: js_add_def)
qed

lemma increment_top: "js_add (Fin 9007199254740992) (Fin 1) = Fin 9007199254740992"
  by (simp add: js_add_def round_eval)

lemma increment:
  assumes "n \<le> 9007199254740992"
  shows "js_add (Fin (of_nat n)) (Fin 1) = Fin (of_nat (min (n + 1) 9007199254740992))"
proof -
  consider "n < 9007199254740991" | "n = 9007199254740991" | "n = 9007199254740992"
    using assms by linarith
  then show ?thesis
  proof cases
    case 1
    then show ?thesis using increment_below [of n] by simp
  next
    case 2
    then show ?thesis using increment_last by simp
  next
    case 3
    then show ?thesis using increment_top by simp
  qed
qed

lemma increments:
  "n \<le> 9007199254740992 \<Longrightarrow>
   ((\<lambda>x. js_add x (Fin 1)) ^^ m) (Fin (of_nat n)) = Fin (of_nat (min (n + m) 9007199254740992))"
proof (induction m arbitrary: n)
  case 0
  then show ?case by simp
next
  case (Suc m)
  have "((\<lambda>x. js_add x (Fin 1)) ^^ Suc m) (Fin (of_nat n))
      = ((\<lambda>x. js_add x (Fin 1)) ^^ m) (js_add (Fin (of_nat n)) (Fin 1))"
    by (simp only: funpow_Suc_right comp_def)
  also have "\<dots> = ((\<lambda>x. js_add x (Fin 1)) ^^ m) (Fin (of_nat (min (n + 1) 9007199254740992)))"
    by (simp only: increment [OF Suc.prems])
  also have "\<dots> = Fin (of_nat (min (min (n + 1) 9007199254740992 + m) 9007199254740992))"
    by (rule Suc.IH) simp
  also have "min (min (n + 1) 9007199254740992 + m) 9007199254740992
      = min (n + Suc m) (9007199254740992::nat)"
    by simp
  finally show ?case .
qed

lemma table_lookup:
  "map_of (foldl addWord [] ws) k
     = (if count_list ws k = 0 then None
        else if k = js ''constructor'' then Some Text
        else Some (Count (Fin (of_nat (min (count_list ws k) 9007199254740992)))))"
  using increments [of 0 "count_list ws k"] by (simp add: map_of_foldl_addWord)

lemma table_entry:
  "(k, v) \<in> set (foldl addWord [] ws) \<longleftrightarrow>
     count_list ws k \<noteq> 0
     \<and> v = (if k = js ''constructor'' then Text
            else Count (Fin (of_nat (min (count_list ws k) 9007199254740992))))"
proof -
  have d: "distinct (map fst (foldl addWord [] ws))"
    by (rule distinct_foldl_addWord) simp
  have "(k, v) \<in> set (foldl addWord [] ws) \<longleftrightarrow> map_of (foldl addWord [] ws) k = Some v"
    using d by simp
  then show ?thesis unfolding table_lookup by auto
qed

lemma byValueDesc_pos:
  "isFinite (value' x) \<Longrightarrow> isFinite (value' y) \<Longrightarrow>
   onGrid (valueOf (value' x)) \<Longrightarrow> onGrid (valueOf (value' y)) \<Longrightarrow>
   js_gt (byValueDesc x y) (Fin 0) \<longleftrightarrow> valueOf (value' x) < valueOf (value' y)"
  unfolding byValueDesc_def by (rule js_sub_pos)

lemma js_sort_byValueDesc:
  assumes "\<forall>x \<in> set xs. isFinite (value' x) \<and> onGrid (valueOf (value' x))"
  shows "js_sort byValueDesc xs = sort_key (\<lambda>x. - valueOf (value' x)) xs"
  by (rule js_sort_sort_key) (use assms in \<open>auto simp: byValueDesc_pos\<close>)

lemma sorted_by_value:
  assumes "\<forall>x \<in> set xs. isFinite (value' x)"
    and "sorted (map (\<lambda>x. - valueOf (value' x)) xs)"
  shows "sorted_wrt (\<lambda>a b. js_ge (value' a) (value' b)) xs"
  using assms by (induction xs) (auto simp: js_ge_finite)

lemma sorted_wrt_take: "sorted_wrt P xs \<Longrightarrow> sorted_wrt P (take n xs)"
  by (simp add: sorted_wrt_iff_nth_less)

lemma sorted_wrt_take_drop:
  assumes "sorted_wrt P xs" "x \<in> set (take n xs)" "y \<in> set (drop n xs)"
  shows "P x y"
proof -
  have "sorted_wrt P (take n xs @ drop n xs)" using assms(1) by simp
  then show ?thesis using assms(2,3) unfolding sorted_wrt_append by blast
qed

lemma onGrid_of_nat: "onGrid (of_nat n)"
  using onGrid_of_int [of "int n"] by simp

text \<open>
  The entries that pass the filter: the words that are counted at least twice, with their
  count.
\<close>

lemma items_set:
  "x \<in> set (map (\<lambda>(k, v). \<lparr>name = k, value' = (case v of Count n \<Rightarrow> n | Text \<Rightarrow> NaN)\<rparr>)
              (filter (\<lambda>(k, v). case v of Count n \<Rightarrow> js_ge n (Fin 2) | Text \<Rightarrow> False)
                 (foldl addWord [] ws)))
   \<longleftrightarrow> 2 \<le> count_list ws (name x) \<and> name x \<noteq> js ''constructor''
       \<and> value' x = Fin (of_nat (min (count_list ws (name x)) 9007199254740992))"
  (is "x \<in> set (map ?mk (filter ?q ?tbl)) \<longleftrightarrow> ?R")
proof
  assume "x \<in> set (map ?mk (filter ?q ?tbl))"
  then obtain k v where kv: "(k, v) \<in> set ?tbl" "?q (k, v)" and x: "x = ?mk (k, v)" by auto
  have v: "count_list ws k \<noteq> 0"
    "v = (if k = js ''constructor'' then Text
          else Count (Fin (of_nat (min (count_list ws k) 9007199254740992))))"
    using kv(1) unfolding table_entry by blast+
  have nc: "k \<noteq> js ''constructor''" using kv(2) v(2) by auto
  then have two: "2 \<le> count_list ws k" using kv(2) v(2) by simp
  show ?R using x nc two v(2) by simp
next
  assume r: ?R
  let ?v = "Count (Fin (of_nat (min (count_list ws (name x)) 9007199254740992)))"
  have "(name x, ?v) \<in> set ?tbl" using r unfolding table_entry by simp
  moreover have "?q (name x, ?v)" using r by (simp add: min_def)
  ultimately have "(name x, ?v) \<in> set (filter ?q ?tbl)" by simp
  then have "?mk (name x, ?v) \<in> ?mk ` set (filter ?q ?tbl)" by (rule imageI)
  moreover have "x = ?mk (name x, ?v)" using r by (cases x) simp
  ultimately show "x \<in> set (map ?mk (filter ?q ?tbl))" by (simp only: set_map)
qed

lemma items_finite:
  assumes "x \<in> set (map (\<lambda>(k, v). \<lparr>name = k, value' = (case v of Count n \<Rightarrow> n | Text \<Rightarrow> NaN)\<rparr>)
              (filter (\<lambda>(k, v). case v of Count n \<Rightarrow> js_ge n (Fin 2) | Text \<Rightarrow> False)
                 (foldl addWord [] ws)))"
  shows "isFinite (value' x) \<and> onGrid (valueOf (value' x))"
  using assms unfolding items_set by (simp add: onGrid_of_nat)

lemma wordCloudData_eq:
  "wordCloudData videos
     = take 100 (sort_key (\<lambda>x. - valueOf (value' x))
         (map (\<lambda>(k, v). \<lparr>name = k, value' = (case v of Count n \<Rightarrow> n | Text \<Rightarrow> NaN)\<rparr>)
            (filter (\<lambda>(k, v). case v of Count n \<Rightarrow> js_ge n (Fin 2) | Text \<Rightarrow> False)
               (foldl addWord []
                  (concat (map (\<lambda>v. segmentChineseText (title v)) videos))))))"
proof -
  let ?items = "map (\<lambda>(k, v). \<lparr>name = k, value' = (case v of Count n \<Rightarrow> n | Text \<Rightarrow> NaN)\<rparr>)
            (filter (\<lambda>(k, v). case v of Count n \<Rightarrow> js_ge n (Fin 2) | Text \<Rightarrow> False)
               (foldl addWord []
                  (concat (map (\<lambda>v. segmentChineseText (title v)) videos))))"
  have "js_sort byValueDesc ?items = sort_key (\<lambda>x. - valueOf (value' x)) ?items"
    by (rule js_sort_byValueDesc) (use items_finite in blast)
  then show ?thesis by (simp add: wordCloudData_def foldl_concat)
qed

lemma name_of_items:
  "map name (map (\<lambda>(k, v). \<lparr>name = k, value' = (case v of Count n \<Rightarrow> n | Text \<Rightarrow> NaN)\<rparr>) xs)
     = map fst xs"
  by (induction xs) auto

lemma wordCloudData_names_distinct: "distinct (map name (wordCloudData videos))"
proof -
  define tbl where "tbl = foldl addWord [] (concat (map (\<lambda>v. segmentChineseText (title v)) videos))"
  define entries where
    "entries = filter (\<lambda>(k, v). case v of Count n \<Rightarrow> js_ge n (Fin 2) | Text \<Rightarrow> False) tbl"
  define items where
    "items = map (\<lambda>(k, v). \<lparr>name = k, value' = (case v of Count n \<Rightarrow> n | Text \<Rightarrow> NaN)\<rparr>) entries"
  have "distinct (map fst tbl)" unfolding tbl_def by (rule distinct_foldl_addWord) simp
  then have "distinct (map fst entries)" unfolding entries_def by (rule distinct_map_filter)
  then have "distinct (map name items)" unfolding items_def by (simp only: name_of_items)
  then have "distinct (map name (sort_key (\<lambda>x. - valueOf (value' x)) items))"
    by (simp only: distinct_map_sort_key)
  then have "distinct (take 100 (map name (sort_key (\<lambda>x. - valueOf (value' x)) items)))"
    by (rule distinct_take)
  then show ?thesis
    unfolding wordCloudData_eq take_map items_def entries_def tbl_def .
qed

lemma tokens_not_stop:
  "k \<in> set (concat (map (\<lambda>v. segmentChineseText (title v)) videos)) \<Longrightarrow> k \<notin> set STOP_WORDS"
  by (auto dest: segmentChineseText_not_stop)

lemma wordCloudData_sound:
  assumes "x \<in> set (wordCloudData videos)"
  shows "name x \<notin> set STOP_WORDS
     \<and> 2 \<le> count_list (concat (map (\<lambda>v. segmentChineseText (title v)) videos)) (name x)
     \<and> value' x = Fin (of_nat (min (count_list
          (concat (map (\<lambda>v. segmentChineseText (title v)) videos)) (name x)) 9007199254740992))
     \<and> js_ge (value' x) (Fin 2)"
proof -
  let ?T = "concat (map (\<lambda>v. segmentChineseText (title v)) videos)"
  have "x \<in> set (map (\<lambda>(k, v). \<lparr>name = k, value' = (case v of Count n \<Rightarrow> n | Text \<Rightarrow> NaN)\<rparr>)
            (filter (\<lambda>(k, v). case v of Count n \<Rightarrow> js_ge n (Fin 2) | Text \<Rightarrow> False)
               (foldl addWord [] ?T)))"
    using assms set_take_subset unfolding wordCloudData_eq by fastforce
  then have r: "2 \<le> count_list ?T (name x)"
    "value' x = Fin (of_nat (min (count_list ?T (name x)) 9007199254740992))"
    unfolding items_set by blast+
  have "count_list ?T (name x) \<noteq> 0" using r(1) by simp
  then have "name x \<in> set ?T" by (simp add: count_list_0_iff)
  then have "name x \<notin> set STOP_WORDS" by (rule tokens_not_stop)
  moreover have "js_ge (value' x) (Fin 2)" using r by (simp add: min_def)
  ultimately show ?thesis using r by blast
qed

lemma wordCloudData_sorted_full:
  "sorted_wrt (\<lambda>a b. js_ge (value' a) (value' b))
     (sort_key (\<lambda>x. - valueOf (value' x))
        (map (\<lambda>(k, v). \<lparr>name = k, value' = (case v of Count n \<Rightarrow> n | Text \<Rightarrow> NaN)\<rparr>)
            (filter (\<lambda>(k, v). case v of Count n \<Rightarrow> js_ge n (Fin 2) | Text \<Rightarrow> False)
               (foldl addWord []
                  (concat (map (\<lambda>v. segmentChineseText (title v)) videos))))))"
proof -
  let ?items = "map (\<lambda>(k, v). \<lparr>name = k, value' = (case v of Count n \<Rightarrow> n | Text \<Rightarrow> NaN)\<rparr>)
            (filter (\<lambda>(k, v). case v of Count n \<Rightarrow> js_ge n (Fin 2) | Text \<Rightarrow> False)
               (foldl addWord []
                  (concat (map (\<lambda>v. segmentChineseText (title v)) videos))))"
  have "\<forall>x \<in> set (sort_key (\<lambda>x. - valueOf (value' x)) ?items). isFinite (value' x)"
    using items_finite by auto
  then show ?thesis by (rule sorted_by_value) simp
qed

lemma wordCloudData_sorted:
  "sorted_wrt (\<lambda>a b. js_ge (value' a) (value' b)) (wordCloudData videos)"
  unfolding wordCloudData_eq by (rule sorted_wrt_take) (rule wordCloudData_sorted_full)

lemma wordCloudData_complete:
  assumes "2 \<le> count_list (concat (map (\<lambda>v. segmentChineseText (title v)) videos)) w"
    and "w \<noteq> js ''constructor''"
  shows "(\<exists>x \<in> set (wordCloudData videos). name x = w)
     \<or> (length (wordCloudData videos) = 100
        \<and> (\<forall>x \<in> set (wordCloudData videos).
             js_ge (value' x) (Fin (of_nat (min (count_list
               (concat (map (\<lambda>v. segmentChineseText (title v)) videos)) w) 9007199254740992)))))"
proof -
  let ?T = "concat (map (\<lambda>v. segmentChineseText (title v)) videos)"
  let ?items = "map (\<lambda>(k, v). \<lparr>name = k, value' = (case v of Count n \<Rightarrow> n | Text \<Rightarrow> NaN)\<rparr>)
            (filter (\<lambda>(k, v). case v of Count n \<Rightarrow> js_ge n (Fin 2) | Text \<Rightarrow> False)
               (foldl addWord [] ?T))"
  let ?full = "sort_key (\<lambda>x. - valueOf (value' x)) ?items"
  let ?x = "\<lparr>name = w, value' = Fin (of_nat (min (count_list ?T w) 9007199254740992))\<rparr>"
  have t: "wordCloudData videos = take 100 ?full" by (rule wordCloudData_eq)
  have "?x \<in> set ?items" unfolding items_set using assms by simp
  then have "?x \<in> set ?full" by simp
  then have "?x \<in> set (take 100 ?full) \<union> set (drop 100 ?full)"
    by (simp only: set_append [symmetric] append_take_drop_id)
  then consider "?x \<in> set (take 100 ?full)" | "?x \<in> set (drop 100 ?full)"
    by (rule UnE)
  then show ?thesis
  proof cases
    case 1
    then have "\<exists>x \<in> set (wordCloudData videos). name x = w" unfolding t by force
    then show ?thesis ..
  next
    case 2
    then have "drop 100 ?full \<noteq> []" by auto
    then have len: "length (take 100 ?full) = 100" by simp
    have s: "sorted_wrt (\<lambda>a b. js_ge (value' a) (value' b)) ?full"
      using wordCloudData_sorted_full [of videos] .
    have "\<forall>x \<in> set (take 100 ?full). js_ge (value' x) (value' ?x)"
      using sorted_wrt_take_drop [OF s _ 2] by blast
    then show ?thesis unfolding t using len by simp
  qed
qed

subsection \<open>The two titles of the scenario\<close>

lemmas seg_eval = segmentChineseText_def segmentWords_def windowsOf_def sliceStr_def
  replaceEach_def isBracket_def isPunctuation_def isDigit_def isWhiteSpace_def trim_def
  isLatin_def isIdeograph_def toLowerCase_def STOP_WORDS_def js_def Let_def

lemma tokens_title1:
  "segmentChineseText [0x61D2, 0x4EBA, 0x5FC5, 0x770B, 0x7F8E, 0x98DF, 0x6559, 0x7A0B]
     = [[0x61D2, 0x4EBA, 0x5FC5, 0x770B], [0x4EBA, 0x5FC5, 0x770B, 0x7F8E],
        [0x5FC5, 0x770B, 0x7F8E, 0x98DF], [0x770B, 0x7F8E, 0x98DF, 0x6559],
        [0x7F8E, 0x98DF, 0x6559, 0x7A0B], [0x61D2, 0x4EBA, 0x5FC5], [0x4EBA, 0x5FC5, 0x770B],
        [0x5FC5, 0x770B, 0x7F8E], [0x770B, 0x7F8E, 0x98DF], [0x7F8E, 0x98DF, 0x6559],
        [0x98DF, 0x6559, 0x7A0B], [0x61D2, 0x4EBA], [0x4EBA, 0x5FC5], [0x5FC5, 0x770B],
        [0x770B, 0x7F8E], [0x7F8E, 0x98DF], [0x98DF, 0x6559], [0x6559, 0x7A0B]]"
  by (simp add: seg_eval upt_rec_numeral)

lemma tokens_title2:
  "segmentChineseText [0x7F8E, 0x98DF, 0x63A2, 0x5E97, 0x76, 0x6C, 0x6F, 0x67]
     = [[0x7F8E, 0x98DF, 0x63A2, 0x5E97], [0x7F8E, 0x98DF, 0x63A2], [0x98DF, 0x63A2, 0x5E97],
        [0x7F8E, 0x98DF], [0x98DF, 0x63A2], [0x63A2, 0x5E97]]"
  by (simp add: seg_eval upt_rec_numeral)

lemma ex_cloud:
  "wordCloudData
     [\<lparr>key = [], title = [0x61D2, 0x4EBA, 0x5FC5, 0x770B, 0x7F8E, 0x98DF, 0x6559, 0x7A0B],
       uploader = [], playCount = Fin 0, duration = [], publishTime = [],
       danmakuCount = Fin 0, coverUrl = None, videoUrl = None\<rparr>,
      \<lparr>key = [], title = [0x7F8E, 0x98DF, 0x63A2, 0x5E97, 0x76, 0x6C, 0x6F, 0x67],
       uploader = [], playCount = Fin 0, duration = [], publishTime = [],
       danmakuCount = Fin 0, coverUrl = None, videoUrl = None\<rparr>]
   = [\<lparr>name = [0x7F8E, 0x98DF], value' = Fin 2\<rparr>]"
  by (simp add: wordCloudData_def tokens_title1 tokens_title2 addWord_def js_sort_def
      byValueDesc_def js_sub_def js_gt_def js_add_def toDouble_0 toDouble_1 toDouble_numeral
      js_def)

text \<open>
  C9.  The keyword table holds no stop word and no entry of frequency below 2; the
  frequency of an entry is the number of times its word occurs among the tokens of all
  titles (a count stops at \<open>2 ^ 53\<close>); the table has at most 100 entries, no word twice,
  and it is sorted by frequency, largest first.  It leaves out no word that occurs twice
  or more, the word \<open>constructor\<close> apart, unless it is full with 100 entries of at least
  that frequency.  The tokens of a title are those of its segments, in order, the segments
  being the maximal runs of characters that are no bracket, punctuation mark, digit or
  white space.  A segment of Latin letters only gives one token, its lower case, when it
  has at least 2 letters and is no stop word, and nothing otherwise.  Any other segment
  gives its windows of length 4, then 3, then 2, each length from left to right: every
  contiguous substring of those lengths that is all ideographs and no stop word.  For the
  two titles of the scenario the table is the one word they share, with frequency 2.
\<close>

theorem wordCloudData_table:
  "(\<forall>x \<in> set (wordCloudData videos).
       name x \<notin> set STOP_WORDS
       \<and> 2 \<le> count_list (concat (map (\<lambda>v. segmentChineseText (title v)) videos)) (name x)
       \<and> value' x = Fin (of_nat (min (count_list
            (concat (map (\<lambda>v. segmentChineseText (title v)) videos)) (name x))
            9007199254740992))
       \<and> js_ge (value' x) (Fin 2))
   \<and> length (wordCloudData videos) \<le> 100
   \<and> sorted_wrt (\<lambda>a b. js_ge (value' a) (value' b)) (wordCloudData videos)
   \<and> distinct (map name (wordCloudData videos))
   \<and> (2 \<le> count_list (concat (map (\<lambda>v. segmentChineseText (title v)) videos)) w
        \<and> w \<noteq> js ''constructor'' \<longrightarrow>
        (\<exists>x \<in> set (wordCloudData videos). name x = w)
        \<or> (length (wordCloudData videos) = 100
           \<and> (\<forall>x \<in> set (wordCloudData videos).
                js_ge (value' x) (Fin (of_nat (min (count_list
                  (concat (map (\<lambda>v. segmentChineseText (title v)) videos)) w)
                  9007199254740992))))))
   \<and> segmentChineseText text = concat (map segmentWords (segmentsOf text))
   \<and> (seg \<noteq> [] \<and> list_all isLatin seg \<longrightarrow>
        segmentWords seg
          = (if 2 \<le> length seg \<and> toLowerCase seg \<notin> set STOP_WORDS then [toLowerCase seg]
             else []))
   \<and> (\<not> (seg \<noteq> [] \<and> list_all isLatin seg) \<longrightarrow>
        segmentWords seg
          = concat (map (\<lambda>len. filter (\<lambda>w. w \<notin> set STOP_WORDS \<and> w \<noteq> []
                                             \<and> list_all isIdeograph w)
                              (map (\<lambda>i. sliceStr seg i (i + len))
                                 [0 ..< length seg + 1 - len]))
                     [4, 3, 2])
        \<and> set (segmentWords seg)
          = {w. \<exists>i len. 2 \<le> len \<and> len \<le> 4 \<and> i + len \<le> length seg
                 \<and> w = sliceStr seg i (i + len) \<and> list_all isIdeograph w
                 \<and> w \<notin> set STOP_WORDS})
   \<and> wordCloudData
        [\<lparr>key = [], title = [0x61D2, 0x4EBA, 0x5FC5, 0x770B, 0x7F8E, 0x98DF, 0x6559, 0x7A0B],
          uploader = [], playCount = Fin 0, duration = [], publishTime = [],
          danmakuCount = Fin 0, coverUrl = None, videoUrl = None\<rparr>,
         \<lparr>key = [], title = [0x7F8E, 0x98DF, 0x63A2, 0x5E97, 0x76, 0x6C, 0x6F, 0x67],
          uploader = [], playCount = Fin 0, duration = [], publishTime = [],
          danmakuCount = Fin 0, coverUrl = None, videoUrl = None\<rparr>]
      = [\<lparr>name = [0x7F8E, 0x98DF], value' = Fin 2\<rparr>]"
proof -
  have a: "\<forall>x \<in> set (wordCloudData videos).
       name x \<notin> set STOP_WORDS
       \<and> 2 \<le> count_list (concat (map (\<lambda>v. segmentChineseText (title v)) videos)) (name x)
       \<and> value' x = Fin (of_nat (min (count_list
            (concat (map (\<lambda>v. segmentChineseText (title v)) videos)) (name x))
            9007199254740992))
       \<and> js_ge (value' x) (Fin 2)"
    using wordCloudData_sound by blast
  have b: "length (wordCloudData videos) \<le> 100"
    unfolding wordCloudData_eq by simp
  have c: "segmentWords seg
          = concat (map (\<lambda>len. filter (\<lambda>w. w \<notin> set STOP_WORDS \<and> w \<noteq> []
                                             \<and> list_all isIdeograph w)
                              (map (\<lambda>i. sliceStr seg i (i + len))
                                 [0 ..< length seg + 1 - len]))
                     [4, 3, 2])"
    if "\<not> (seg \<noteq> [] \<and> list_all isLatin seg)"
    using segmentWords_cjk(1) [OF that] by (simp add: windowsOf_filter)
  show ?thesis
    using a b c wordCloudData_sorted [of videos] wordCloudData_names_distinct [of videos]
      wordCloudData_complete [of videos w] segmentChineseText_segmentsOf [of "text"]
      segmentWords_latin [of seg] segmentWords_cjk(2) [of seg] ex_cloud
    by blast
qed

theorem wordCloudData_table_witness:
  "[0x7F8E, 0x98DF] \<notin> set STOP_WORDS
   \<and> count_list (concat (map (\<lambda>v. segmentChineseText (title v))
        [\<lparr>key = [], title = [0x61D2, 0x4EBA, 0x5FC5, 0x770B, 0x7F8E, 0x98DF, 0x6559, 0x7A0B],
          uploader = [], playCount = Fin 0, duration = [], publishTime = [],
          danmakuCount = Fin 0, coverUrl = None, videoUrl = None\<rparr>,
         \<lparr>key = [], title = [0x7F8E, 0x98DF, 0x63A2, 0x5E97, 0x76, 0x6C, 0x6F, 0x67],
          uploader = [], playCount = Fin 0, duration = [], publishTime = [],
          danmakuCount = Fin 0, coverUrl = None, videoUrl = None\<rparr>]))
        [0x7F8E, 0x98DF] = 2
   \<and> (\<exists>x \<in> set (wordCloudData
        [\<lparr>key = [], title = [0x61D2, 0x4EBA, 0x5FC5, 0x770B, 0x7F8E, 0x98DF, 0x6559, 0x7A0B],
          uploader = [], playCount = Fin 0, duration = [], publishTime = [],
          danmakuCount = Fin 0, coverUrl = None, videoUrl = None\<rparr>,
         \<lparr>key = [], title = [0x7F8E, 0x98DF, 0x63A2, 0x5E97, 0x76, 0x6C, 0x6F, 0x67],
          uploader = [], playCount = Fin 0, duration = [], publishTime = [],
          danmakuCount = Fin 0, coverUrl = None, videoUrl = None\<rparr>]).
        name x = [0x7F8E, 0x98DF])
   \<and> [0x7F8E, 0x98DF] \<in> set (segmentWords [0x7F8E, 0x98DF, 0x63A2, 0x5E97, 0x76, 0x6C, 0x6F, 0x67])
   \<and> segmentWords (js ''Hello'') = [js ''hello'']
   \<and> segmentWords (js ''a'') = []"
proof -
  let ?vs = "[\<lparr>key = [], title = [0x61D2, 0x4EBA, 0x5FC5, 0x770B, 0x7F8E, 0x98DF, 0x6559, 0x7A0B],
          uploader = [], playCount = Fin 0, duration = [], publishTime = [],
          danmakuCount = Fin 0, coverUrl = None, videoUrl = None\<rparr>,
         \<lparr>key = [], title = [0x7F8E, 0x98DF, 0x63A2, 0x5E97, 0x76, 0x6C, 0x6F, 0x67],
          uploader = [], playCount = Fin 0, duration = [], publishTime = [],
          danmakuCount = Fin 0, coverUrl = None, videoUrl = None\<rparr>]"
  let ?w = "[0x7F8E, 0x98DF] :: jsstring"
  let ?t2 = "[0x7F8E, 0x98DF, 0x63A2, 0x5E97, 0x76, 0x6C, 0x6F, 0x67] :: jsstring"
  let ?T = "concat (map (\<lambda>v. segmentChineseText (title v)) ?vs)"
  note T1 = wordCloudData_table [of ?vs ?w ?t2 "js ''Hello''"]
  note T2 = wordCloudData_table [of ?vs ?w ?t2 "js ''a''"]
  note T3 = wordCloudData_table [of ?vs ?w ?t2 ?t2]
  have tbl: "wordCloudData ?vs = [\<lparr>name = ?w, value' = Fin 2\<rparr>]"
    by (rule T1 [THEN conjunct2, THEN conjunct2, THEN conjunct2, THEN conjunct2, THEN conjunct2,
        THEN conjunct2, THEN conjunct2, THEN conjunct2])
  have m: "\<lparr>name = ?w, value' = Fin 2\<rparr> \<in> set (wordCloudData ?vs)"
    unfolding tbl by simp
  have e: "name \<lparr>name = ?w, value' = Fin 2\<rparr> \<notin> set STOP_WORDS
       \<and> 2 \<le> count_list ?T (name \<lparr>name = ?w, value' = Fin 2\<rparr>)
       \<and> value' \<lparr>name = ?w, value' = Fin 2\<rparr>
          = Fin (of_nat (min (count_list ?T (name \<lparr>name = ?w, value' = Fin 2\<rparr>))
              9007199254740992))
       \<and> js_ge (value' \<lparr>name = ?w, value' = Fin 2\<rparr>) (Fin 2)"
    by (rule bspec [OF T1 [THEN conjunct1] m])
  have s1: "?w \<notin> set STOP_WORDS" using e by simp
  have two: "2 \<le> count_list ?T ?w" using e by simp
  have "(2::rat) = of_nat (min (count_list ?T ?w) 9007199254740992)" using e by simp
  then have "(of_nat 2 :: rat) = of_nat (min (count_list ?T ?w) 9007199254740992)" by simp
  then have "2 = min (count_list ?T ?w) 9007199254740992" by (simp only: of_nat_eq_iff)
  then have cnt: "count_list ?T ?w = 2" by (simp add: min_def split: if_splits)
  have nc: "?w \<noteq> js ''constructor''" by (simp add: js_def)
  have "(\<exists>x \<in> set (wordCloudData ?vs). name x = ?w)
        \<or> (length (wordCloudData ?vs) = 100
           \<and> (\<forall>x \<in> set (wordCloudData ?vs).
                js_ge (value' x) (Fin (of_nat (min (count_list ?T ?w) 9007199254740992)))))"
    using T1 [THEN conjunct2, THEN conjunct2, THEN conjunct2, THEN conjunct2, THEN conjunct1]
      two nc by blast
  moreover have "length (wordCloudData ?vs) \<noteq> 100" unfolding tbl by simp
  ultimately have ex: "\<exists>x \<in> set (wordCloudData ?vs). name x = ?w" by blast
  have nl: "\<not> (?t2 \<noteq> [] \<and> list_all isLatin ?t2)" by (simp add: isLatin_def)
  have cj: "set (segmentWords ?t2)
          = {w. \<exists>i len. 2 \<le> len \<and> len \<le> 4 \<and> i + len \<le> length ?t2
                 \<and> w = sliceStr ?t2 i (i + len) \<and> list_all isIdeograph w
                 \<and> w \<notin> set STOP_WORDS}"
    using T3 [THEN conjunct2, THEN conjunct2, THEN conjunct2, THEN conjunct2, THEN conjunct2,
        THEN conjunct2, THEN conjunct2, THEN conjunct1] nl
    by blast
  have "2 \<le> (2::nat) \<and> (2::nat) \<le> 4 \<and> 0 + 2 \<le> length ?t2 \<and> ?w = sliceStr ?t2 0 (0 + 2)
      \<and> list_all isIdeograph ?w \<and> ?w \<notin> set STOP_WORDS"
    using s1 by (simp add: sliceStr_def isIdeograph_def)
  then have win: "?w \<in> set (segmentWords ?t2)" unfolding cj by blast
  have l1: "js ''Hello'' \<noteq> [] \<and> list_all isLatin (js ''Hello'')"
    by (simp add: js_def isLatin_def)
  have l2: "js ''a'' \<noteq> [] \<and> list_all isLatin (js ''a'')"
    by (simp add: js_def isLatin_def)
  have low: "toLowerCase (js ''Hello'') = js ''hello''"
    by (simp add: toLowerCase_def js_def)
  have len: "2 \<le> length (js ''Hello'')" "\<not> 2 \<le> length (js ''a'')"
    by (simp_all add: js_def)
  have hello: "js ''hello'' \<notin> set STOP_WORDS"
    by (simp add: STOP_WORDS_def js_def)
  have w1: "segmentWords (js ''Hello'')
      = (if 2 \<le> length (js ''Hello'') \<and> toLowerCase (js ''Hello'') \<notin> set STOP_WORDS
         then [toLowerCase (js ''Hello'')] else [])"
    using T1 [THEN conjunct2, THEN conjunct2, THEN conjunct2, THEN conjunct2, THEN conjunct2,
        THEN conjunct2, THEN conjunct1] l1
    by (rule mp)
  have w2: "segmentWords (js ''a'')
      = (if 2 \<le> length (js ''a'') \<and> toLowerCase (js ''a'') \<notin> set STOP_WORDS
         then [toLowerCase (js ''a'')] else [])"
    using T2 [THEN conjunct2, THEN conjunct2, THEN conjunct2, THEN conjunct2, THEN conjunct2,
        THEN conjunct2, THEN conjunct1] l2
    by (rule mp)
  have h1: "segmentWords (js ''Hello'') = [js ''hello'']"
    unfolding w1 low using len(1) hello by simp
  have h2: "segmentWords (js ''a'') = []"
    unfolding w2 using len(2) by simp
  show ?thesis using s1 cnt ex win h1 h2 by blast
qed

section \<open>Publish times\<close>

subsection \<open>The calendar\<close>

lemma int_div_bounds:
  fixes x k :: int
  assumes "0 < k"
  shows "k * (x div k) \<le> x" and "x < k * (x div k) + k"
proof -
  have "x = k * (x div k) + x mod k" by simp
  moreover have "0 \<le> x mod k" "x mod k < k" using assms by simp_all
  ultimately show "k * (x div k) \<le> x" and "x < k * (x div k) + k" by linarith+
qed

lemma int_div_eqI:
  fixes x k q :: int
  assumes "0 < k" "k * q \<le> x" "x < k * q + k"
  shows "x div k = q"
proof -
  have "x = k * q + (x - k * q)" by simp
  moreover have "0 \<le> x - k * q" "x - k * q < k" using assms by linarith+
  ultimately show ?thesis using int_div_pos_eq by blast
qed

lemma day_of_year_bounds:
  fixes doe :: int
  assumes "0 \<le> doe" "doe \<le> 146096"
  defines "yoe \<equiv> (doe - doe div 1460 + doe div 36524 - doe div 146096) div 365"
  shows "0 \<le> doe - (365 * yoe + yoe div 4 - yoe div 100)"
    and "doe - (365 * yoe + yoe div 4 - yoe div 100) \<le> 365"
proof -
  define c where "c = doe div 146096"
  define B where "B = doe div 36524"
  define b where "b = B - c"
  define rem where "rem = doe - 36524 * b"
  define n where "n = rem div 1461"
  define r where "r = rem - 1461 * n"
  define s where "s = 24 * b + n + r"
  define dl where "dl = s div 1460"
  define j where "j = (r - dl) div 365"
  have c1: "146096 * c \<le> doe" "doe < 146096 * c + 146096"
    unfolding c_def by (rule int_div_bounds; simp)+
  have B1: "36524 * B \<le> doe" "doe < 36524 * B + 36524"
    unfolding B_def by (rule int_div_bounds; simp)+
  have c01: "0 \<le> c" "c \<le> 1" using c1 assms(1,2) by linarith+
  have B04: "0 \<le> B" "B \<le> 4" using B1 assms(1,2) by linarith+
  have cB: "c = 1 \<Longrightarrow> B = 4" using c1 B1 assms(1,2) by linarith
  have Bc: "B = 4 \<Longrightarrow> c = 1" using c1 B1 assms(1,2) by linarith
  consider (zero) "c = 0" "B \<le> 3" | (one) "c = 1" "B = 4"
    using c01 B04 cB Bc by fastforce
  then have brem: "0 \<le> b \<and> b \<le> 3 \<and> 0 \<le> rem \<and> rem \<le> 36524"
  proof cases
    case zero
    then show ?thesis unfolding rem_def b_def using B04 B1 by simp
  next
    case one
    then show ?thesis unfolding rem_def b_def using c1 assms(1,2) by simp
  qed
  have b03: "0 \<le> b" "b \<le> 3" using brem by simp_all
  have rem1: "0 \<le> rem" "rem \<le> 36524" using brem by simp_all
  have n1: "1461 * n \<le> rem" "rem < 1461 * n + 1461"
    unfolding n_def by (rule int_div_bounds; simp)+
  have n024: "0 \<le> n" "n \<le> 24" using n1 rem1 by linarith+
  have r1: "0 \<le> r" "r \<le> 1460" unfolding r_def using n1 by linarith+
  have doe: "doe = 36524 * b + 1461 * n + r" unfolding r_def rem_def by simp
  have s1: "0 \<le> s" "s \<le> 1556" unfolding s_def using b03 n024 r1 by linarith+
  have dl1: "1460 * dl \<le> s" "s < 1460 * dl + 1460"
    unfolding dl_def by (rule int_div_bounds; simp)+
  have dl01: "0 \<le> dl" "dl \<le> 1" using dl1 s1 by linarith+
  have a: "doe div 1460 = 25 * b + n + dl"
  proof (rule int_div_eqI)
    show "(0::int) < 1460" by simp
    show "1460 * (25 * b + n + dl) \<le> doe" using doe dl1 unfolding s_def by (simp add: distrib_left)
    show "doe < 1460 * (25 * b + n + dl) + 1460" using doe dl1 unfolding s_def by (simp add: distrib_left)
  qed
  have cB': "doe div 36524 - doe div 146096 = b"
    unfolding b_def B_def c_def by simp
  have f: "doe - doe div 1460 + doe div 36524 - doe div 146096
      = 36500 * b + 1460 * n + r - dl"
    using a cB' doe by (simp add: distrib_left)
  have rdl: "0 \<le> r - dl" "r - dl \<le> 1459"
    using r1 dl01 dl1 s_def b03 n024 by (simp add: distrib_left)+
  have j1: "365 * j \<le> r - dl" "r - dl < 365 * j + 365"
    unfolding j_def by (rule int_div_bounds; simp)+
  have j03: "0 \<le> j" "j \<le> 3" using j1 rdl by (simp add: distrib_left)+
  have yoe: "yoe = 100 * b + 4 * n + j"
    unfolding yoe_def f
  proof (rule int_div_eqI)
    show "(0::int) < 365" by simp
    show "365 * (100 * b + 4 * n + j) \<le> 36500 * b + 1460 * n + r - dl" using j1 by (simp add: distrib_left)
    show "36500 * b + 1460 * n + r - dl < 365 * (100 * b + 4 * n + j) + 365"
      using j1 by (simp add: distrib_left)
  qed
  have y4: "yoe div 4 = 25 * b + n"
  proof (rule int_div_eqI)
    show "(0::int) < 4" by simp
    show "4 * (25 * b + n) \<le> yoe" using yoe j03 by (simp add: distrib_left)
    show "yoe < 4 * (25 * b + n) + 4" using yoe j03 by (simp add: distrib_left)
  qed
  have y100: "yoe div 100 = b"
  proof (rule int_div_eqI)
    show "(0::int) < 100" by simp
    show "100 * b \<le> yoe" using yoe j03 n024 by (simp add: distrib_left)
    show "yoe < 100 * b + 100" using yoe j03 n024 by (simp add: distrib_left)
  qed
  have doy: "doe - (365 * yoe + yoe div 4 - yoe div 100) = r - 365 * j"
    unfolding y4 y100 using yoe doe by (simp add: distrib_left)
  show "0 \<le> doe - (365 * yoe + yoe div 4 - yoe div 100)"
    unfolding doy using j1 dl01 by linarith
  show "doe - (365 * yoe + yoe div 4 - yoe div 100) \<le> 365"
    unfolding doy using j1 dl01 by linarith
qed

lemma month_day_bounds:
  fixes doy :: int
  assumes "0 \<le> doy" "doy \<le> 365"
  defines "mp \<equiv> (5 * doy + 2) div 153"
  shows "0 \<le> mp" "mp \<le> 11" "1 \<le> doy - (153 * mp + 2) div 5 + 1"
    "doy - (153 * mp + 2) div 5 + 1 \<le> 31"
proof -
  define q where "q = (153 * mp + 2) div 5"
  have m1: "153 * mp \<le> 5 * doy + 2" "5 * doy + 2 < 153 * mp + 153"
    unfolding mp_def by (rule int_div_bounds; simp)+
  have q1: "5 * q \<le> 153 * mp + 2" "153 * mp + 2 < 5 * q + 5"
    unfolding q_def by (rule int_div_bounds; simp)+
  show "0 \<le> mp" "mp \<le> 11" using m1 assms(1,2) by linarith+
  show "1 \<le> doy - (153 * mp + 2) div 5 + 1" "doy - (153 * mp + 2) div 5 + 1 \<le> 31"
    unfolding q_def [symmetric] using m1 q1 by linarith+
qed

lemma civilFromDays_month_day:
  "fst (snd (civilFromDays days)) =
     (let doe = (days + 719468) mod 146097;
          yoe = (doe - doe div 1460 + doe div 36524 - doe div 146096) div 365;
          doy = doe - (365 * yoe + yoe div 4 - yoe div 100);
          mp = (5 * doy + 2) div 153
      in if mp < 10 then mp + 3 else mp - 9)"
  "snd (snd (civilFromDays days)) =
     (let doe = (days + 719468) mod 146097;
          yoe = (doe - doe div 1460 + doe div 36524 - doe div 146096) div 365;
          doy = doe - (365 * yoe + yoe div 4 - yoe div 100);
          mp = (5 * doy + 2) div 153
      in doy - (153 * mp + 2) div 5 + 1)"
  unfolding civilFromDays_def Let_def by (simp_all only: fst_conv snd_conv)

lemma civilFromDays_bounds:
  "1 \<le> fst (snd (civilFromDays days)) \<and> fst (snd (civilFromDays days)) \<le> 12
   \<and> 1 \<le> snd (snd (civilFromDays days)) \<and> snd (snd (civilFromDays days)) \<le> 31"
proof -
  define doe where "doe = (days + 719468) mod 146097"
  define yoe where "yoe = (doe - doe div 1460 + doe div 36524 - doe div 146096) div 365"
  define doy where "doy = doe - (365 * yoe + yoe div 4 - yoe div 100)"
  define mp where "mp = (5 * doy + 2) div 153"
  have doe: "0 \<le> doe" "doe \<le> 146096" unfolding doe_def by simp_all
  have doy: "0 \<le> doy" "doy \<le> 365"
    unfolding doy_def yoe_def by (rule day_of_year_bounds [OF doe])+
  have mp: "0 \<le> mp" "mp \<le> 11" unfolding mp_def by (rule month_day_bounds [OF doy])+
  have dd: "1 \<le> doy - (153 * mp + 2) div 5 + 1" "doy - (153 * mp + 2) div 5 + 1 \<le> 31"
    unfolding mp_def by (rule month_day_bounds [OF doy])+
  have m: "fst (snd (civilFromDays days)) = (if mp < 10 then mp + 3 else mp - 9)"
    unfolding civilFromDays_month_day Let_def mp_def doy_def yoe_def doe_def ..
  have d: "snd (snd (civilFromDays days)) = doy - (153 * mp + 2) div 5 + 1"
    unfolding civilFromDays_month_day Let_def mp_def doy_def yoe_def doe_def ..
  have "1 \<le> (if mp < 10 then mp + 3 else mp - 9)" "(if mp < 10 then mp + 3 else mp - 9) \<le> 12"
    using mp by (simp_all split: if_splits)
  then show ?thesis unfolding m d using dd by simp
qed

lemma getMonth_bounds: "1 \<le> getMonth e t + 1 \<and> getMonth e t + 1 \<le> 12"
  using civilFromDays_bounds [of "LocalTime e t div 86400000"] by (simp add: getMonth_def)

lemma getDate_bounds: "1 \<le> getDate e t \<and> getDate e t \<le> 31"
  using civilFromDays_bounds [of "LocalTime e t div 86400000"] by (simp add: getDate_def)

subsection \<open>The format\<close>

lemma getHours_bounds: "0 \<le> getHours e t \<and> getHours e t \<le> 23"
proof -
  define x where "x = LocalTime e t mod 86400000"
  have x: "0 \<le> x" "x < 86400000" unfolding x_def by simp_all
  have "3600000 * (x div 3600000) \<le> x" "x < 3600000 * (x div 3600000) + 3600000"
    by (rule int_div_bounds; simp)+
  then show ?thesis unfolding getHours_def x_def [symmetric] using x by linarith
qed

lemma getMinutes_bounds: "0 \<le> getMinutes e t \<and> getMinutes e t \<le> 59"
proof -
  define x where "x = LocalTime e t mod 3600000"
  have x: "0 \<le> x" "x < 3600000" unfolding x_def by simp_all
  have "60000 * (x div 60000) \<le> x" "x < 60000 * (x div 60000) + 60000"
    by (rule int_div_bounds; simp)+
  then show ?thesis unfolding getMinutes_def x_def [symmetric] using x by linarith
qed

lemma getSeconds_bounds: "0 \<le> getSeconds e t \<and> getSeconds e t \<le> 59"
proof -
  define x where "x = LocalTime e t mod 60000"
  have x: "0 \<le> x" "x < 60000" unfolding x_def by simp_all
  have "1000 * (x div 1000) \<le> x" "x < 1000 * (x div 1000) + 1000"
    by (rule int_div_bounds; simp)+
  then show ?thesis unfolding getSeconds_def x_def [symmetric] using x by linarith
qed

lemma natToString_step:
  "10 \<le> n \<Longrightarrow> natToString n = natToString (n div 10) @ [of_nat (48 + n mod 10)]"
  by (subst natToString.simps) simp

lemma padTwoDigits_twoDigits:
  assumes "0 \<le> v" "v \<le> 99"
  shows "padTwoDigits v = twoDigits v"
proof (cases "v < 10")
  case True
  then have "nat v < 10" "nat v div 10 = 0" "nat v mod 10 = nat v" using assms by auto
  then show ?thesis
    using assms by (simp add: padTwoDigits_def padStart_def intToString_def natToString_digit
        twoDigits_def)
next
  case False
  then have n: "10 \<le> nat v" "nat v div 10 < 10" using assms by auto
  have "natToString (nat v) = [of_nat (48 + nat v div 10), of_nat (48 + nat v mod 10)]"
    using n by (simp add: natToString_step natToString_digit)
  then show ?thesis
    using assms by (simp add: padTwoDigits_def padStart_def intToString_def twoDigits_def)
qed

lemma length_natToString_4:
  assumes "1000 \<le> n" "n \<le> 9999"
  shows "length (natToString n) = 4"
proof -
  have a: "10 \<le> n" "10 \<le> n div 10" "10 \<le> n div 10 div 10" "n div 10 div 10 div 10 < 10"
    using assms by auto
  show ?thesis
    by (simp add: natToString_step [OF a(1)] natToString_step [OF a(2)]
        natToString_step [OF a(3)] natToString_digit [OF a(4)])
qed

lemma formatDateTime_shape:
  "formatDateTime e t
     = intToString (getFullYear e t) @ js ''-'' @ twoDigits (getMonth e t + 1) @ js ''-''
       @ twoDigits (getDate e t) @ js '' '' @ twoDigits (getHours e t) @ js '':''
       @ twoDigits (getMinutes e t) @ js '':'' @ twoDigits (getSeconds e t)"
  using getMonth_bounds [of e t] getDate_bounds [of e t] getHours_bounds [of e t]
    getMinutes_bounds [of e t] getSeconds_bounds [of e t]
  by (simp add: formatDateTime_def Let_def padTwoDigits_twoDigits)

lemma formatDateTime_length:
  assumes "1000 \<le> getFullYear e t" "getFullYear e t \<le> 9999"
  shows "length (formatDateTime e t) = 19"
proof -
  have "length (intToString (getFullYear e t)) = 4"
    using assms by (simp add: intToString_def length_natToString_4)
  then show ?thesis
    unfolding formatDateTime_shape by (simp add: twoDigits_def js_def)
qed

subsection \<open>Resolution\<close>

lemma coerceToDate_number:
  "coerceToDate e (JNum n) =
     (if isFinite (numberOf n)
      then newDate (if js_gt (numberOf n) (Fin 1000000000000) then numberOf n
                    else js_mul (numberOf n) (Fin 1000))
      else None)"
  by (simp add: coerceToDate_def Let_def)

lemma newDate_int: "\<bar>z\<bar> \<le> 8640000000000000 \<Longrightarrow> newDate (Fin (of_int z)) = Some z"
proof -
  assume "\<bar>z\<bar> \<le> 8640000000000000"
  then have "(of_int \<bar>z\<bar> :: rat) \<le> of_int 8640000000000000" by (simp only: of_int_le_iff)
  then have "\<not> 8640000000000000 < \<bar>of_int z :: rat\<bar>" by simp
  then show ?thesis by simp
qed

text \<open>On whole numbers the products and the truncation are exact.\<close>

lemma coerceToDate_seconds:
  assumes "- 8640000000000 \<le> k" "k \<le> 1000000000000"
  shows "coerceToDate e (JNum (Fin (of_int k))) = Some (k * 1000)"
proof -
  have n: "numberOf (Fin (of_int k)) = Fin (of_int k)"
    using assms by (simp add: toDouble_int)
  have g: "\<not> js_gt (Fin (of_int k)) (Fin 1000000000000)"
    using assms(2) by (simp add: js_gt_def)
  have "toDouble (of_int (k * 1000)) = Fin (of_int (k * 1000))"
    by (rule toDouble_int) (use assms in simp)
  then have m: "js_mul (Fin (of_int k)) (Fin 1000) = Fin (of_int (k * 1000))"
    by (simp add: js_mul_def)
  have "newDate (Fin (of_int (k * 1000))) = Some (k * 1000)"
    by (rule newDate_int) (use assms in simp)
  then show ?thesis unfolding coerceToDate_number n using g m by simp
qed

lemma coerceToDate_millis:
  assumes "1000000000000 < k" "k \<le> 8640000000000000"
  shows "coerceToDate e (JNum (Fin (of_int k))) = Some k"
proof -
  have n: "numberOf (Fin (of_int k)) = Fin (of_int k)"
    using assms by (simp add: toDouble_int)
  have g: "js_gt (Fin (of_int k)) (Fin 1000000000000)"
    using assms(1) by (simp add: js_gt_def)
  have "newDate (Fin (of_int k)) = Some k"
    by (rule newDate_int) (use assms in simp)
  then show ?thesis unfolding coerceToDate_number n using g by simp
qed

lemma coerceToDate_fraction: "coerceToDate e (JNum (Fin (- 1997001 / 1000))) = Some (- 1997001)"
proof -
  have n: "numberOf (Fin (- 1997001 / 1000)) = Fin (- 8782903280721199 / 4398046511104)"
    by (simp add: round_eval)
  have m: "js_mul (Fin (- 8782903280721199 / 4398046511104)) (Fin 1000) = Fin (- 1997001)"
    by (simp add: js_mul_def round_eval)
  show ?thesis unfolding coerceToDate_number n m by (simp add: js_gt_def)
qed

lemma coerceToDate_digits:
  assumes "trim s \<noteq> []" "list_all isDigit (trim s)" "isFinite (StringToNumber (trim s))"
  shows "coerceToDate e (JStr s) =
     (case newDate (if js_gt (StringToNumber (trim s)) (Fin 1000000000000)
                    then StringToNumber (trim s)
                    else js_mul (StringToNumber (trim s)) (Fin 1000)) of
        Some d \<Rightarrow> Some d
      | None \<Rightarrow> dateParse e (trim s))"
  using assms by (simp add: coerceToDate_def Let_def)

lemma firstTimestamp_first:
  assumes "\<forall>u \<in> set pre. coerceToDate e u = None" "coerceToDate e v = Some t"
  shows "firstTimestamp e (pre @ v # post) = Some (formatDateTime e t)"
  using assms by (induction pre) simp_all

lemma resolvePublishTime_first:
  assumes "timestampSources item = pre @ v # post"
    "\<forall>u \<in> set pre. coerceToDate e u = None" "coerceToDate e v = Some t"
  shows "resolvePublishTime e item = formatDateTime e t"
  by (simp add: resolvePublishTime_def assms(1) firstTimestamp_first [OF assms(2,3)])

text \<open>
  C6, amended.  The timestamp fields are tried in the order \<open>publishTime\<close>,
  \<open>publishTimestamp\<close>, \<open>publishTimeMs\<close>, \<open>publish_time\<close>, \<open>pubdate\<close>, \<open>pub_time\<close>,
  \<open>pubDate\<close>, \<open>ctime\<close>, \<open>createTime\<close>, \<open>created_at\<close>, \<open>createdAt\<close>, and the first
  that gives a valid date decides the result, whatever the later fields hold.  A finite
  number greater than \<open>10^12\<close> is taken as milliseconds since the epoch and any other
  finite number as seconds, multiplied by 1000 in the arithmetic of JavaScript numbers and
  truncated to whole milliseconds: a whole number of seconds \<open>k\<close> gives the instant
  \<open>1000 k\<close>, and \<open>-1997.001\<close> gives \<open>-1997001\<close>.  A string of digits only follows the
  same rule when that gives a valid date, and is left to the host's parser of dates
  otherwise.  The result is the local-time year in plain decimal, not padded, followed by
  \<open>-MM-DD HH:MM:SS\<close>, each of the five fields two digits, padded with a zero; it has the
  19 characters of \<open>YYYY-MM-DD HH:MM:SS\<close> when the year is from 1000 to 9999.
\<close>

theorem publishTime_resolution:
  "timestampSources item
     = map (getProp item)
         [js ''publishTime'', js ''publishTimestamp'', js ''publishTimeMs'', js ''publish_time'',
          js ''pubdate'', js ''pub_time'', js ''pubDate'', js ''ctime'', js ''createTime'',
          js ''created_at'', js ''createdAt'']
   \<and> (timestampSources item = pre @ v # post \<and> (\<forall>u \<in> set pre. coerceToDate e u = None)
        \<and> coerceToDate e v = Some d
      \<longrightarrow> resolvePublishTime e item = formatDateTime e d)
   \<and> coerceToDate e (JNum n) =
        (if isFinite (numberOf n)
         then newDate (if js_gt (numberOf n) (Fin 1000000000000) then numberOf n
                       else js_mul (numberOf n) (Fin 1000))
         else None)
   \<and> (- 8640000000000 \<le> k \<and> k \<le> 1000000000000
      \<longrightarrow> coerceToDate e (JNum (Fin (of_int k))) = Some (k * 1000))
   \<and> (1000000000000 < k \<and> k \<le> 8640000000000000
      \<longrightarrow> coerceToDate e (JNum (Fin (of_int k))) = Some k)
   \<and> coerceToDate e (JNum (Fin (- 1997001 / 1000))) = Some (- 1997001)
   \<and> (trim s \<noteq> [] \<and> list_all isDigit (trim s) \<and> isFinite (StringToNumber (trim s))
      \<longrightarrow> coerceToDate e (JStr s) =
            (case newDate (if js_gt (StringToNumber (trim s)) (Fin 1000000000000)
                           then StringToNumber (trim s)
                           else js_mul (StringToNumber (trim s)) (Fin 1000)) of
               Some d \<Rightarrow> Some d
             | None \<Rightarrow> dateParse e (trim s)))
   \<and> formatDateTime e t
     = intToString (getFullYear e t) @ js ''-'' @ twoDigits (getMonth e t + 1) @ js ''-''
       @ twoDigits (getDate e t) @ js '' '' @ twoDigits (getHours e t) @ js '':''
       @ twoDigits (getMinutes e t) @ js '':'' @ twoDigits (getSeconds e t)
   \<and> 1 \<le> getMonth e t + 1 \<and> getMonth e t + 1 \<le> 12 \<and> 1 \<le> getDate e t \<and> getDate e t \<le> 31
   \<and> 0 \<le> getHours e t \<and> getHours e t \<le> 23 \<and> 0 \<le> getMinutes e t \<and> getMinutes e t \<le> 59
   \<and> 0 \<le> getSeconds e t \<and> getSeconds e t \<le> 59
   \<and> (1000 \<le> getFullYear e t \<and> getFullYear e t \<le> 9999 \<longrightarrow> length (formatDateTime e t) = 19)"
proof -
  have a: "timestampSources item
     = map (getProp item)
         [js ''publishTime'', js ''publishTimestamp'', js ''publishTimeMs'', js ''publish_time'',
          js ''pubdate'', js ''pub_time'', js ''pubDate'', js ''ctime'', js ''createTime'',
          js ''created_at'', js ''createdAt'']"
    by (simp add: timestampSources_def)
  show ?thesis
    using a resolvePublishTime_first [of item pre v post e d] coerceToDate_number [of e n]
      coerceToDate_seconds [of k e] coerceToDate_millis [of k e] coerceToDate_fraction [of e]
      coerceToDate_digits [of s e] formatDateTime_shape [of e t]
      getMonth_bounds [of e t] getDate_bounds [of e t] getHours_bounds [of e t]
      getMinutes_bounds [of e t] getSeconds_bounds [of e t] formatDateTime_length [of e t]
    by blast
qed

lemma civil_19675: "civilFromDays 19675 = (2023, 11, 14)"
  unfolding civilFromDays_def Let_def by simp

lemma civil_10957000: "civilFromDays 10957000 = (31969, 4, 1)"
  unfolding civilFromDays_def Let_def by simp

lemmas date_eval = padTwoDigits_def padStart_def intToString_def natToString_step
  natToString_digit js_def

lemma format_2023: "formatDateTime utcEnv 1700000000000 = js ''2023-11-14 22:13:20''"
  unfolding formatDateTime_def Let_def getFullYear_def getMonth_def getDate_def getHours_def
    getMinutes_def getSeconds_def LocalTime_def utcEnv_def
  by (simp add: civil_19675 date_eval)

lemma format_31969: "formatDateTime utcEnv 946684800000000 = js ''31969-04-01 00:00:00''"
  unfolding formatDateTime_def Let_def getFullYear_def getMonth_def getDate_def getHours_def
    getMinutes_def getSeconds_def LocalTime_def utcEnv_def
  by (simp add: civil_10957000 date_eval)

text \<open>
  C6, as the claim states it, fails: the number \<open>946684800000\<close>, the milliseconds of
  2000-01-01 and not greater than \<open>10^12\<close>, is taken as seconds, and the publish time is
  \<open>31969-04-01 00:00:00\<close>, with a year of five digits.
\<close>

theorem publishTime_counterexample:
  "normalizeRecords utcEnv
     (docOf (JArr [JObj [(js ''publishTime'', JNum (Fin 946684800000))]]))
   = Inr [\<lparr>key = js ''d-0'', title = [0x672A, 0x547D, 0x540D, 0x7A3F, 0x4EF6],
           uploader = [0x672A, 0x77E5, 0x6295, 0x7A3F, 0x8005], playCount = Fin 0,
           duration = js ''00:00'', publishTime = js ''31969-04-01 00:00:00'',
           danmakuCount = Fin 0, coverUrl = None, videoUrl = None\<rparr>]"
proof -
  have "coerceToDate utcEnv (JNum (Fin 946684800000)) = Some 946684800000000"
    using coerceToDate_seconds [of 946684800000 utcEnv] by simp
  then have "resolvePublishTime utcEnv (JObj [(js ''publishTime'', JNum (Fin 946684800000))])
      = js ''31969-04-01 00:00:00''"
    by (simp add: resolvePublishTime_def timestampSources_def format_31969)
  then show ?thesis
    by (simp add: normalizeRecords_def flattened_def normalizeItem_def recordOf_def nullish_def
        coalesce_def pickNumber_def ToNumber_def returned_def playCountSource_def
        danmakuCountSource_def coverUrlOf_def js_sort_def docOf_def natToString_digit num_eval)
qed

theorem publishTime_resolution_witness:
  "resolvePublishTime utcEnv
     (JObj [(js ''publishTime'', JStr (js ''soon'')), (js ''publishTimestamp'', JNum (Fin 1700000000)),
            (js ''ctime'', JNum (Fin 5))])
   = js ''2023-11-14 22:13:20''
   \<and> coerceToDate utcEnv (JNum (Fin 1700000000)) = Some 1700000000000
   \<and> coerceToDate utcEnv (JNum (Fin 1700000000000)) = Some 1700000000000
   \<and> coerceToDate utcEnv (JStr (js '' 1700000000000 '')) = Some 1700000000000
   \<and> length (formatDateTime utcEnv 1700000000000) = 19"
proof -
  let ?item = "JObj [(js ''publishTime'', JStr (js ''soon'')),
            (js ''publishTimestamp'', JNum (Fin 1700000000)), (js ''ctime'', JNum (Fin 5))]"
  have src: "timestampSources ?item
      = [JStr (js ''soon'')] @ JNum (Fin 1700000000)
        # [JUndefined, JUndefined, JUndefined, JUndefined, JUndefined, JNum (Fin 5),
           JUndefined, JUndefined, JUndefined]"
    by (simp add: timestampSources_def js_def)
  have pre: "\<forall>u \<in> set [JStr (js ''soon'')]. coerceToDate utcEnv u = None"
    by (simp add: coerceToDate_def utcEnv_def trim_def isWhiteSpace_def isDigit_def js_def)
  note T = publishTime_resolution [of ?item "[JStr (js ''soon'')]" "JNum (Fin 1700000000)"
        "[JUndefined, JUndefined, JUndefined, JUndefined, JUndefined, JNum (Fin 5),
          JUndefined, JUndefined, JUndefined]"
        utcEnv 1700000000000 "Fin 0" 1700000000 "js '' 1700000000000 ''" 1700000000000]
  note M = publishTime_resolution [of JNull "[]" JNull "[]" utcEnv 0 "Fin 0" 1700000000000
        "[]" 0]
  have v: "coerceToDate utcEnv (JNum (Fin 1700000000)) = Some 1700000000000"
    using T [THEN conjunct2, THEN conjunct2, THEN conjunct2, THEN conjunct1] by simp
  have ms: "coerceToDate utcEnv (JNum (Fin 1700000000000)) = Some 1700000000000"
    using M [THEN conjunct2, THEN conjunct2, THEN conjunct2, THEN conjunct2, THEN conjunct1]
    by simp
  have r1: "resolvePublishTime utcEnv ?item = formatDateTime utcEnv 1700000000000"
    using T [THEN conjunct2, THEN conjunct1] src pre v by blast
  have tr: "trim (js '' 1700000000000 '') = js ''1700000000000''"
    by (simp add: trim_def isWhiteSpace_def js_def)
  have dg: "js ''1700000000000'' \<noteq> [] \<and> list_all isDigit (js ''1700000000000'')"
    by (simp add: isDigit_def js_def)
  have nm: "StringToNumber (js ''1700000000000'') = Fin 1700000000000"
    by (simp add: num_eval)
  have r2: "coerceToDate utcEnv (JStr (js '' 1700000000000 '')) = Some 1700000000000"
    using T [THEN conjunct2, THEN conjunct2, THEN conjunct2, THEN conjunct2, THEN conjunct2,
        THEN conjunct2, THEN conjunct1] dg
    unfolding tr nm by (simp add: js_gt_def)
  have yr: "getFullYear utcEnv 1700000000000 = 2023"
    by (simp add: getFullYear_def LocalTime_def utcEnv_def civil_19675)
  have ln: "length (formatDateTime utcEnv 1700000000000) = 19"
    using T [THEN conjunct2, THEN conjunct2, THEN conjunct2, THEN conjunct2, THEN conjunct2,
        THEN conjunct2, THEN conjunct2, THEN conjunct2, THEN conjunct2, THEN conjunct2,
        THEN conjunct2, THEN conjunct2, THEN conjunct2, THEN conjunct2, THEN conjunct2,
        THEN conjunct2, THEN conjunct2, THEN conjunct2] yr
    by simp
  show ?thesis using r1 r2 v ms ln format_2023 by simp
qed

end
